theory Spec2Isabelle
  imports
    Main
    "HOL-Library.AList"
    "HOL-Library.Char_ord"
    "HOL-Library.List_Lexorder"
    "HOL-Library.Multiset"
    "HOL-Library.Product_Lexorder"
begin

section \<open>Lamport logical clocks: the data model of \<^verbatim>\<open>lamport_clock.py\<close>\<close>

text \<open>
  The embedding follows \<^verbatim>\<open>src/paradigms/distributed/lamport/scripts/lamport_clock.py\<close>.
  Python integers are unbounded, so timestamps are \<^typ>\<open>int\<close>; strings are
  \<^typ>\<open>string\<close>. A dataclass is a record; since record fields are global constants,
  the fields \<^verbatim>\<open>Message.id\<close> and \<^verbatim>\<open>Message.timestamp\<close> are named
  \<open>msg_id\<close> and \<open>msg_timestamp\<close>, and \<^verbatim>\<open>LamportClock.process_id\<close> is
  named \<open>clock_process_id\<close>.
\<close>

datatype EventType = LOCAL | SEND | RECEIVE

record Event =
  process_id :: string
  event_type :: EventType
  timestamp :: int
  description :: string
  message_id :: "string option"

record Message =
  msg_id :: string
  sender :: string
  receiver :: string
  msg_timestamp :: int
  content :: string

record LamportClock =
  clock_process_id :: string
  time :: int
  events :: "Event list"

text \<open>The exceptions the module can raise: a failed dictionary lookup
  \<^verbatim>\<open>self.processes[k]\<close> and the explicit \<^verbatim>\<open>raise ValueError(...)\<close> of
  \<^verbatim>\<open>deliver_message\<close>.\<close>

datatype error = KeyError string | ValueError string

subsection \<open>Python's \<^verbatim>\<open>str\<close> on integers, as used by the f-strings\<close>

definition digit_char :: "nat \<Rightarrow> char" where
  "digit_char d = char_of (48 + d)"

function str_nat :: "nat \<Rightarrow> string" where
  "str_nat n = (if n < 10 then [digit_char n] else str_nat (n div 10) @ [digit_char (n mod 10)])"
  by pat_completeness auto
termination
  by (relation "measure (\<lambda>n. n)") auto

declare str_nat.simps [simp del]

definition str_int :: "int \<Rightarrow> string" where
  "str_int i = (if i < 0 then CHR ''-'' # str_nat (nat (- i)) else str_nat (nat i))"

subsection \<open>\<^verbatim>\<open>class LamportClock\<close>\<close>

definition LamportClock_init :: "string \<Rightarrow> LamportClock" where
  "LamportClock_init pid = \<lparr>clock_process_id = pid, time = 0, events = []\<rparr>"

text \<open>\<^verbatim>\<open>local_event\<close>: increment the clock, append a LOCAL event, return it.\<close>

definition LamportClock_local_event :: "LamportClock \<Rightarrow> string \<Rightarrow> Event \<times> LamportClock" where
  "LamportClock_local_event c descr =
     (let t = time c + 1;
          event = \<lparr>process_id = clock_process_id c, event_type = LOCAL, timestamp = t,
                   description = descr, message_id = None\<rparr>
      in (event, c\<lparr>time := t, events := events c @ [event]\<rparr>))"

text \<open>\<^verbatim>\<open>send\<close>: increment the clock, build the message with id
  \<^verbatim>\<open>f"{self.process_id}-{self.time}"\<close>, append a SEND event.\<close>

definition message_id_of :: "string \<Rightarrow> int \<Rightarrow> string" where
  "message_id_of pid t = pid @ ''-'' @ str_int t"

definition LamportClock_send ::
  "LamportClock \<Rightarrow> string \<Rightarrow> string \<Rightarrow> (Event \<times> Message) \<times> LamportClock" where
  "LamportClock_send c rcv cont =
     (let t = time c + 1;
          message = \<lparr>msg_id = message_id_of (clock_process_id c) t,
                     sender = clock_process_id c, receiver = rcv,
                     msg_timestamp = t, content = cont\<rparr>;
          event = \<lparr>process_id = clock_process_id c, event_type = SEND, timestamp = t,
                   description = ''Send to '' @ rcv @ '': '' @ cont,
                   message_id = Some (msg_id message)\<rparr>
      in ((event, message), c\<lparr>time := t, events := events c @ [event]\<rparr>))"

text \<open>\<^verbatim>\<open>receive\<close>: the Lamport rule \<^verbatim>\<open>max(local, received) + 1\<close>, then a RECEIVE
  event at the new time.\<close>

definition LamportClock_receive :: "LamportClock \<Rightarrow> Message \<Rightarrow> Event \<times> LamportClock" where
  "LamportClock_receive c message =
     (let t = max (time c) (msg_timestamp message) + 1;
          event = \<lparr>process_id = clock_process_id c, event_type = RECEIVE, timestamp = t,
                   description = ''Receive from '' @ sender message @ '': '' @ content message,
                   message_id = Some (msg_id message)\<rparr>
      in (event, c\<lparr>time := t, events := events c @ [event]\<rparr>))"

subsection \<open>\<^verbatim>\<open>class DistributedSystem\<close>\<close>

text \<open>
  \<^verbatim>\<open>self.processes\<close> is a Python dictionary, which keeps insertion order and, on a
  repeated key, overwrites the value in place: an association list under
  \<^const>\<open>AList.update\<close>, read with \<^const>\<open>map_of\<close>. The two message collections
  are Python lists.
\<close>

record DistributedSystem =
  processes :: "(string \<times> LamportClock) list"
  pending_messages :: "Message list"
  delivered_messages :: "Message list"

text \<open>\<^verbatim>\<open>__init__\<close>: the dictionary comprehension over \<^verbatim>\<open>process_ids\<close> and two empty
  lists. The body has no check and no \<^verbatim>\<open>raise\<close>.\<close>

definition DistributedSystem_init :: "string list \<Rightarrow> DistributedSystem" where
  "DistributedSystem_init process_ids =
     \<lparr>processes = fold (\<lambda>pid d. AList.update pid (LamportClock_init pid) d) process_ids [],
      pending_messages = [],
      delivered_messages = []\<rparr>"

text \<open>The outcome of the constructor call \<^verbatim>\<open>DistributedSystem(process_ids)\<close> as a
  result value: \<^verbatim>\<open>__init__\<close> always runs to its end.\<close>

definition DistributedSystem_construct :: "string list \<Rightarrow> error + DistributedSystem" where
  "DistributedSystem_construct process_ids = Inr (DistributedSystem_init process_ids)"

text \<open>The methods mutate \<^verbatim>\<open>self\<close>; the model returns the outcome (the exception
  raised or the value returned) together with the state the call leaves behind, which
  matters where an exception is raised after a mutation.\<close>

definition DistributedSystem_local_event ::
  "DistributedSystem \<Rightarrow> string \<Rightarrow> string \<Rightarrow> (error + Event) \<times> DistributedSystem" where
  "DistributedSystem_local_event s pid descr =
     (case map_of (processes s) pid of
        None \<Rightarrow> (Inl (KeyError pid), s)
      | Some c \<Rightarrow>
          (let r = LamportClock_local_event c descr
           in (Inr (fst r), s\<lparr>processes := AList.update pid (snd r) (processes s)\<rparr>)))"

definition send_message ::
  "DistributedSystem \<Rightarrow> string \<Rightarrow> string \<Rightarrow> string \<Rightarrow> (error + Message) \<times> DistributedSystem" where
  "send_message s sndr rcv cont =
     (case map_of (processes s) sndr of
        None \<Rightarrow> (Inl (KeyError sndr), s)
      | Some c \<Rightarrow>
          (let r = LamportClock_send c rcv cont;
               message = snd (fst r)
           in (Inr message,
               s\<lparr>processes := AList.update sndr (snd r) (processes s),
                 pending_messages := pending_messages s @ [message]\<rparr>)))"

text \<open>\<^verbatim>\<open>message in self.pending_messages\<close> compares dataclass instances field by field,
  which is equality of records; \<^verbatim>\<open>list.remove\<close> deletes the first equal element.
  The receiver is looked up only after both lists have been changed.\<close>

definition deliver_message ::
  "DistributedSystem \<Rightarrow> Message \<Rightarrow> (error + Event) \<times> DistributedSystem" where
  "deliver_message s message =
     (if message \<in> set (pending_messages s) then
        (let s1 = s\<lparr>pending_messages := remove1 message (pending_messages s),
                     delivered_messages := delivered_messages s @ [message]\<rparr>
         in case map_of (processes s1) (receiver message) of
              None \<Rightarrow> (Inl (KeyError (receiver message)), s1)
            | Some c \<Rightarrow>
                (let r = LamportClock_receive c message
                 in (Inr (fst r),
                     s1\<lparr>processes := AList.update (receiver message) (snd r) (processes s1)\<rparr>)))
      else (Inl (ValueError (''Message '' @ msg_id message @ '' not in pending queue'')), s))"

lemma deliver_message_pending:
  "pending_messages (snd (deliver_message s m)) =
     (if m \<in> set (pending_messages s) then remove1 m (pending_messages s) else pending_messages s)"
  by (simp add: deliver_message_def Let_def split: option.split)

lemma deliver_message_shrinks:
  "m \<in> set (pending_messages s) \<Longrightarrow>
   Suc (length (pending_messages (snd (deliver_message s m)))) = length (pending_messages s)"
  using length_pos_if_in_set [of m "pending_messages s"]
  by (simp add: deliver_message_pending length_remove1)

text \<open>
  \<^verbatim>\<open>deliver_all_pending\<close>: \<^verbatim>\<open>random.choice\<close> returns the element at some index below
  the length of the list. The random source is a sequence \<open>rng\<close> of natural numbers,
  the draw is \<open>rng 0 mod length\<close>, and the rest of the sequence serves the next
  iteration; every draw order is some \<open>rng\<close>. An exception of \<^verbatim>\<open>deliver_message\<close>
  leaves the loop.
\<close>

function deliver_all_pending ::
  "(nat \<Rightarrow> nat) \<Rightarrow> DistributedSystem \<Rightarrow> (error + unit) \<times> DistributedSystem" where
  "deliver_all_pending rng s =
     (if pending_messages s = [] then (Inr (), s)
      else
        (let message = pending_messages s ! (rng 0 mod length (pending_messages s));
             r = deliver_message s message
         in case fst r of
              Inl e \<Rightarrow> (Inl e, snd r)
            | Inr _ \<Rightarrow> deliver_all_pending (\<lambda>i. rng (Suc i)) (snd r)))"
  by pat_completeness auto
termination
proof (relation "measure (\<lambda>(rng, s). length (pending_messages s))")
  show "wf (measure (\<lambda>(rng, s). length (pending_messages s)))"
    by simp
next
  fix rng :: "nat \<Rightarrow> nat" and s :: DistributedSystem and x xa xb
  assume ne: "pending_messages s \<noteq> []"
    and x: "x = pending_messages s ! (rng 0 mod length (pending_messages s))"
    and xa: "xa = deliver_message s x"
  from ne x have "x \<in> set (pending_messages s)"
    by simp
  from deliver_message_shrinks [OF this] xa
  show "((\<lambda>i. rng (Suc i), snd xa), rng, s) \<in> measure (\<lambda>(rng, s). length (pending_messages s))"
    by simp
qed

declare deliver_all_pending.simps [simp del]

text \<open>\<^verbatim>\<open>get_global_history\<close>: the logs of all processes in dictionary order, then
  \<^verbatim>\<open>sorted\<close> with the key \<^verbatim>\<open>(e.timestamp, e.process_id)\<close>. Python compares the
  tuples lexicographically and the strings by code point, and its sort is stable;
  \<^const>\<open>sort_key\<close> is the stable insertion sort on the same order.\<close>

definition event_key :: "Event \<Rightarrow> int \<times> string" where
  "event_key e = (timestamp e, process_id e)"

definition get_global_history :: "DistributedSystem \<Rightarrow> Event list" where
  "get_global_history s =
     sort_key event_key (concat (map (\<lambda>p. events (snd p)) (processes s)))"

text \<open>\<^verbatim>\<open>verify_causality\<close>: for each delivered message, the first SEND event with the
  message's id in the sender's log and the first RECEIVE event with it in the
  receiver's log (both lookups can raise \<^verbatim>\<open>KeyError\<close>); a violation string when both
  exist and the receive timestamp is not greater.\<close>

definition find_event :: "string \<Rightarrow> EventType \<Rightarrow> Event list \<Rightarrow> Event option" where
  "find_event mid ty es = List.find (\<lambda>e. message_id e = Some mid \<and> event_type e = ty) es"

definition violation_text :: "Event \<Rightarrow> Event \<Rightarrow> string" where
  "violation_text send_event recv_event =
     ''Causality violation: send@'' @ str_int (timestamp send_event) @ '' -> '' @
     ''receive@'' @ str_int (timestamp recv_event)"

fun verify_loop :: "DistributedSystem \<Rightarrow> Message list \<Rightarrow> string list \<Rightarrow> error + string list" where
  "verify_loop s [] violations = Inr violations"
| "verify_loop s (message # rest) violations =
     (case map_of (processes s) (sender message) of
        None \<Rightarrow> Inl (KeyError (sender message))
      | Some cs \<Rightarrow>
          (case map_of (processes s) (receiver message) of
             None \<Rightarrow> Inl (KeyError (receiver message))
           | Some cr \<Rightarrow>
               (case (find_event (msg_id message) SEND (events cs),
                      find_event (msg_id message) RECEIVE (events cr)) of
                  (Some send_event, Some recv_event) \<Rightarrow>
                    (if timestamp recv_event \<le> timestamp send_event
                     then verify_loop s rest (violations @ [violation_text send_event recv_event])
                     else verify_loop s rest violations)
                | _ \<Rightarrow> verify_loop s rest violations)))"

definition verify_causality :: "DistributedSystem \<Rightarrow> error + string list" where
  "verify_causality s = verify_loop s (delivered_messages s) []"

subsection \<open>The scenario of \<^verbatim>\<open>demo\<close>\<close>

text \<open>Sequencing of calls: an exception ends the run, the state is kept.\<close>

definition and_then ::
  "(error + 'a) \<times> DistributedSystem \<Rightarrow>
   ('a \<Rightarrow> DistributedSystem \<Rightarrow> (error + 'b) \<times> DistributedSystem) \<Rightarrow>
   (error + 'b) \<times> DistributedSystem" where
  "and_then r f = (case fst r of Inl e \<Rightarrow> (Inl e, snd r) | Inr x \<Rightarrow> f x (snd r))"

text \<open>The calls of \<^verbatim>\<open>demo\<close> up to the printing, in the source's order and with its
  arguments; the value is the three events returned by the deliveries of
  \<^verbatim>\<open>msg1\<close>, \<^verbatim>\<open>msg2\<close> and \<^verbatim>\<open>msg3\<close>, and the final system.\<close>

definition demo :: "(error + Event \<times> Event \<times> Event) \<times> DistributedSystem" where
  "demo =
     and_then (DistributedSystem_local_event (DistributedSystem_init [''A'', ''B'', ''C''])
                 ''A'' ''Start computation'') (\<lambda>_ system.
     and_then (send_message system ''A'' ''B'' ''Hello B'') (\<lambda>msg1 system.
     and_then (DistributedSystem_local_event system ''B'' ''Initialize'') (\<lambda>_ system.
     and_then (DistributedSystem_local_event system ''B'' ''Process data'') (\<lambda>_ system.
     and_then (deliver_message system msg1) (\<lambda>recv1 system.
     and_then (send_message system ''B'' ''C'' ''Forward to C'') (\<lambda>msg2 system.
     and_then (DistributedSystem_local_event system ''C'' ''Startup'') (\<lambda>_ system.
     and_then (deliver_message system msg2) (\<lambda>recv2 system.
     and_then (send_message system ''C'' ''A'' ''Response to A'') (\<lambda>msg3 system.
     and_then (DistributedSystem_local_event system ''A'' ''Continue processing'') (\<lambda>_ system.
     and_then (deliver_message system msg3) (\<lambda>recv3 system.
     (Inr (recv1, recv2, recv3), system))))))))))))"

subsection \<open>Runs of the public operations\<close>

text \<open>
  A caller drives a system through \<^verbatim>\<open>local_event\<close>, \<^verbatim>\<open>send_message\<close>,
  \<^verbatim>\<open>deliver_message\<close> (with any \<^verbatim>\<open>Message\<close> value, also one the system never
  returned) and \<^verbatim>\<open>deliver_all_pending\<close>; a call that raises leaves the state it
  reached, and the caller may go on. A run also records, in call order, the messages that
  \<^verbatim>\<open>send_message\<close> returned: the messages ever created.
\<close>

datatype op =
    OpLocalEvent string string
  | OpSendMessage string string string
  | OpDeliverMessage Message
  | OpDeliverAllPending "nat \<Rightarrow> nat"

fun exec_op :: "Message list \<times> DistributedSystem \<Rightarrow> op \<Rightarrow> Message list \<times> DistributedSystem" where
  "exec_op (created, s) (OpLocalEvent pid descr) =
     (created, snd (DistributedSystem_local_event s pid descr))"
| "exec_op (created, s) (OpSendMessage sndr rcv cont) =
     (let r = send_message s sndr rcv cont
      in (case fst r of Inl e \<Rightarrow> created | Inr message \<Rightarrow> created @ [message], snd r))"
| "exec_op (created, s) (OpDeliverMessage message) =
     (created, snd (deliver_message s message))"
| "exec_op (created, s) (OpDeliverAllPending rng) =
     (created, snd (deliver_all_pending rng s))"

definition run :: "string list \<Rightarrow> op list \<Rightarrow> Message list \<times> DistributedSystem" where
  "run process_ids ops = foldl exec_op ([], DistributedSystem_init process_ids) ops"

definition created_of :: "string list \<Rightarrow> op list \<Rightarrow> Message list" where
  "created_of process_ids ops = fst (run process_ids ops)"

definition system_of :: "string list \<Rightarrow> op list \<Rightarrow> DistributedSystem" where
  "system_of process_ids ops = snd (run process_ids ops)"

text \<open>The same for one \<^verbatim>\<open>LamportClock\<close> driven directly.\<close>

datatype clock_op =
    ClockLocalEvent string
  | ClockSend string string
  | ClockReceive Message

fun exec_clock_op :: "LamportClock \<Rightarrow> clock_op \<Rightarrow> LamportClock" where
  "exec_clock_op c (ClockLocalEvent descr) = snd (LamportClock_local_event c descr)"
| "exec_clock_op c (ClockSend rcv cont) = snd (LamportClock_send c rcv cont)"
| "exec_clock_op c (ClockReceive message) = snd (LamportClock_receive c message)"

definition run_clock :: "string \<Rightarrow> clock_op list \<Rightarrow> LamportClock" where
  "run_clock pid ops = foldl exec_clock_op (LamportClock_init pid) ops"

subsection \<open>Happened-before\<close>

text \<open>
  The order the properties of the global history speak about, on the events of a state:
  an event precedes the later events of its own process's log, a SEND event precedes a
  RECEIVE event carrying the same message id, and the relation is closed under
  transitivity.
\<close>

inductive happened_before :: "DistributedSystem \<Rightarrow> Event \<Rightarrow> Event \<Rightarrow> bool"
  for s :: DistributedSystem where
    same_process:
      "map_of (processes s) k = Some c \<Longrightarrow> i < j \<Longrightarrow> j < length (events c) \<Longrightarrow>
       happened_before s (events c ! i) (events c ! j)"
  | send_receive:
      "map_of (processes s) k = Some c \<Longrightarrow> e \<in> set (events c) \<Longrightarrow> event_type e = SEND \<Longrightarrow>
       map_of (processes s) k' = Some c' \<Longrightarrow> e' \<in> set (events c') \<Longrightarrow>
       event_type e' = RECEIVE \<Longrightarrow> message_id e = message_id e' \<Longrightarrow>
       happened_before s e e'"
  | transitive:
      "happened_before s e1 e2 \<Longrightarrow> happened_before s e2 e3 \<Longrightarrow> happened_before s e1 e3"

text \<open>The draw sequence that always picks index 0, for concrete runs of
  \<^verbatim>\<open>deliver_all_pending\<close>.\<close>

definition draw_first :: "nat \<Rightarrow> nat" where
  "draw_first i = 0"

section \<open>Auxiliary facts\<close>

subsection \<open>Message ids determine the sender and the timestamp\<close>

text \<open>
  The id \<^verbatim>\<open>f"{process_id}-{time}"\<close> ends with the decimal digits of a non-negative
  timestamp, which contain no dash: the last dash separates the two parts, whatever the
  process id looks like.
\<close>

definition nat_of_digits :: "string \<Rightarrow> nat" where
  "nat_of_digits ds = foldl (\<lambda>acc ch. 10 * acc + (of_char ch - 48)) 0 ds"

lemma of_char_digit_char: "d < 10 \<Longrightarrow> of_char (digit_char d) = (48 + d :: nat)"
  by (simp add: digit_char_def)

lemma digit_char_lits:
  "digit_char 0 = CHR ''0''" "digit_char (Suc 0) = CHR ''1''" "digit_char 2 = CHR ''2''"
  "digit_char 3 = CHR ''3''" "digit_char 4 = CHR ''4''" "digit_char 5 = CHR ''5''"
  "digit_char 6 = CHR ''6''" "digit_char 7 = CHR ''7''" "digit_char 8 = CHR ''8''"
  "digit_char 9 = CHR ''9''"
  by code_simp+

lemma nat_of_digits_str_nat: "nat_of_digits (str_nat n) = n"
proof (induction n rule: str_nat.induct)
  case (1 n)
  show ?case
  proof (cases "n < 10")
    case True
    then show ?thesis
      by (simp add: str_nat.simps [of n] nat_of_digits_def of_char_digit_char)
  next
    case False
    with 1 have "nat_of_digits (str_nat (n div 10)) = n div 10" by simp
    with False show ?thesis
      by (simp add: str_nat.simps [of n] nat_of_digits_def of_char_digit_char)
  qed
qed

lemma str_nat_inj: "str_nat m = str_nat n \<Longrightarrow> m = n"
  by (metis nat_of_digits_str_nat)

lemma digit_char_not_dash: "d < 10 \<Longrightarrow> digit_char d \<noteq> CHR ''-''"
proof
  assume d: "d < 10" and eq: "digit_char d = CHR ''-''"
  from eq have "(of_char (digit_char d) :: nat) = of_char CHR ''-''" by simp
  with d show False by (simp add: of_char_digit_char)
qed

lemma dash_notin_str_nat: "CHR ''-'' \<notin> set (str_nat n)"
proof (induction n rule: str_nat.induct)
  case (1 n)
  show ?case
  proof (cases "n < 10")
    case True
    then show ?thesis
      using digit_char_not_dash [of n] by (auto simp add: str_nat.simps [of n])
  next
    case False
    with 1 have "CHR ''-'' \<notin> set (str_nat (n div 10))" by simp
    with False show ?thesis
      using digit_char_not_dash [of "n mod 10"] by (auto simp add: str_nat.simps [of n])
  qed
qed

lemma split_at_last:
  "xs @ c # ds = xs' @ c # ds' \<Longrightarrow> c \<notin> set ds \<Longrightarrow> c \<notin> set ds' \<Longrightarrow> xs = xs' \<and> ds = ds'"
  by (auto simp: append_eq_append_conv2 append_eq_Cons_conv Cons_eq_append_conv)

lemma message_id_of_inj:
  assumes "message_id_of p t = message_id_of p' t'" and "0 \<le> t" and "0 \<le> t'"
  shows "p = p' \<and> t = t'"
proof -
  from assms have "p @ CHR ''-'' # str_nat (nat t) = p' @ CHR ''-'' # str_nat (nat t')"
    by (simp add: message_id_of_def str_int_def)
  from split_at_last [OF this dash_notin_str_nat dash_notin_str_nat]
  have "p = p'" and "str_nat (nat t) = str_nat (nat t')" by simp_all
  with assms(2,3) show ?thesis
    by (auto dest: str_nat_inj)
qed

subsection \<open>Invariants of the reachable states\<close>

text \<open>
  \<open>clock_inv\<close>: a clock carries its dictionary key, its log is strictly increasing and
  bounded by the clock, and a SEND event names the id built from its own timestamp.
  \<open>msg_inv\<close>: a message in either collection has the id built from its sender and
  timestamp, and its sender's clock has reached that timestamp. \<open>recv_inv\<close>: a
  RECEIVE event belongs to a delivered message with a smaller timestamp.
\<close>

definition clock_inv :: "string \<Rightarrow> LamportClock \<Rightarrow> bool" where
  "clock_inv k c \<longleftrightarrow>
     clock_process_id c = k \<and> 0 \<le> time c \<and>
     sorted_wrt (<) (map timestamp (events c)) \<and>
     (\<forall>e\<in>set (events c). process_id e = k \<and> 0 < timestamp e \<and> timestamp e \<le> time c \<and>
        (event_type e = SEND \<longrightarrow> message_id e = Some (message_id_of k (timestamp e))))"

definition msg_inv :: "(string \<rightharpoonup> LamportClock) \<Rightarrow> Message \<Rightarrow> bool" where
  "msg_inv P m \<longleftrightarrow>
     msg_id m = message_id_of (sender m) (msg_timestamp m) \<and> 0 < msg_timestamp m \<and>
     (\<exists>c. P (sender m) = Some c \<and> msg_timestamp m \<le> time c)"

definition recv_inv :: "Message list \<Rightarrow> Event \<Rightarrow> bool" where
  "recv_inv deliv e \<longleftrightarrow>
     (event_type e = RECEIVE \<longrightarrow>
        (\<exists>m\<in>set deliv. message_id e = Some (msg_id m) \<and> msg_timestamp m < timestamp e))"

definition system_inv :: "DistributedSystem \<Rightarrow> bool" where
  "system_inv s \<longleftrightarrow>
     distinct (map fst (processes s)) \<and>
     (\<forall>k c. map_of (processes s) k = Some c \<longrightarrow>
        clock_inv k c \<and> (\<forall>e\<in>set (events c). recv_inv (delivered_messages s) e)) \<and>
     (\<forall>m\<in>set (pending_messages s) \<union> set (delivered_messages s).
        msg_inv (map_of (processes s)) m) \<and>
     distinct (pending_messages s @ delivered_messages s)"

lemma clock_inv_init: "clock_inv k (LamportClock_init k)"
  by (simp add: clock_inv_def LamportClock_init_def)

lemma clock_inv_local_event:
  "clock_inv k c \<Longrightarrow> clock_inv k (snd (LamportClock_local_event c d))"
  by (auto simp: clock_inv_def LamportClock_local_event_def Let_def sorted_wrt_append)

lemma clock_inv_send:
  "clock_inv k c \<Longrightarrow> clock_inv k (snd (LamportClock_send c r d))"
  by (auto simp: clock_inv_def LamportClock_send_def Let_def sorted_wrt_append)

lemma clock_inv_receive:
  "clock_inv k c \<Longrightarrow> clock_inv k (snd (LamportClock_receive c m))"
  by (auto simp: clock_inv_def LamportClock_receive_def Let_def sorted_wrt_append)

lemma recv_inv_mono: "recv_inv d e \<Longrightarrow> set d \<subseteq> set d' \<Longrightarrow> recv_inv d' e"
  by (auto simp: recv_inv_def)

lemma msg_inv_upd:
  "msg_inv P m \<Longrightarrow> P k = Some c \<Longrightarrow> time c \<le> time c' \<Longrightarrow> msg_inv (P(k \<mapsto> c')) m"
  by (auto simp: msg_inv_def)

lemma system_inv_step:
  assumes inv: "system_inv s"
    and k: "map_of (processes s) k = Some c"
    and procs: "processes s' = AList.update k c' (processes s)"
    and c': "clock_inv k c'"
    and t: "time c \<le> time c'"
    and ev: "\<forall>e\<in>set (events c'). recv_inv (delivered_messages s') e"
    and deliv: "set (delivered_messages s) \<subseteq> set (delivered_messages s')"
    and msgs: "\<forall>m\<in>set (pending_messages s') \<union> set (delivered_messages s').
                 m \<in> set (pending_messages s) \<union> set (delivered_messages s)
                 \<or> msg_inv ((map_of (processes s))(k \<mapsto> c')) m"
    and dist: "distinct (pending_messages s' @ delivered_messages s')"
  shows "system_inv s'"
proof -
  have P': "map_of (processes s') = (map_of (processes s))(k \<mapsto> c')"
    by (simp add: procs update_conv')
  have d: "distinct (map fst (processes s'))"
    using inv by (simp add: procs system_inv_def distinct_update)
  have cl: "clock_inv k' c'' \<and> (\<forall>e\<in>set (events c''). recv_inv (delivered_messages s') e)"
    if "map_of (processes s') k' = Some c''" for k' c''
  proof (cases "k' = k")
    case True
    with that P' have "c'' = c'" by simp
    with True c' ev show ?thesis by simp
  next
    case False
    with that P' have "map_of (processes s) k' = Some c''" by simp
    with inv have "clock_inv k' c''" and "\<forall>e\<in>set (events c''). recv_inv (delivered_messages s) e"
      by (simp_all add: system_inv_def)
    with deliv show ?thesis by (blast intro: recv_inv_mono)
  qed
  have ms: "msg_inv (map_of (processes s')) m"
    if "m \<in> set (pending_messages s') \<union> set (delivered_messages s')" for m
  proof -
    from msgs that
    consider "m \<in> set (pending_messages s) \<union> set (delivered_messages s)"
      | "msg_inv ((map_of (processes s))(k \<mapsto> c')) m" by blast
    then show ?thesis
    proof cases
      case 1
      with inv have "msg_inv (map_of (processes s)) m" by (simp add: system_inv_def)
      from msg_inv_upd [OF this k t] show ?thesis by (simp add: P')
    next
      case 2
      then show ?thesis by (simp add: P')
    qed
  qed
  from d cl ms dist show ?thesis
    unfolding system_inv_def by blast
qed

lemma system_inv_frame:
  assumes inv: "system_inv s"
    and procs: "processes s' = processes s"
    and deliv: "set (delivered_messages s) \<subseteq> set (delivered_messages s')"
    and msgs: "set (pending_messages s') \<union> set (delivered_messages s')
                 \<subseteq> set (pending_messages s) \<union> set (delivered_messages s)"
    and dist: "distinct (pending_messages s' @ delivered_messages s')"
  shows "system_inv s'"
proof -
  have r: "recv_inv (delivered_messages s') e" if "recv_inv (delivered_messages s) e" for e
    using that deliv by (rule recv_inv_mono)
  have "distinct (map fst (processes s'))"
    using inv by (simp add: procs system_inv_def)
  moreover have "\<forall>k c. map_of (processes s') k = Some c \<longrightarrow>
        clock_inv k c \<and> (\<forall>e\<in>set (events c). recv_inv (delivered_messages s') e)"
    using inv r unfolding system_inv_def procs by blast
  moreover have "\<forall>m\<in>set (pending_messages s') \<union> set (delivered_messages s').
        msg_inv (map_of (processes s')) m"
    using inv msgs unfolding system_inv_def procs by blast
  ultimately show ?thesis
    using dist unfolding system_inv_def by blast
qed

lemma system_inv_clock:
  "system_inv s \<Longrightarrow> map_of (processes s) k = Some c \<Longrightarrow> clock_inv k c"
  by (simp add: system_inv_def)

lemma system_inv_recv:
  "system_inv s \<Longrightarrow> map_of (processes s) k = Some c \<Longrightarrow> e \<in> set (events c) \<Longrightarrow>
   recv_inv (delivered_messages s) e"
  by (simp add: system_inv_def)

lemma system_inv_msg:
  "system_inv s \<Longrightarrow> m \<in> set (pending_messages s) \<union> set (delivered_messages s) \<Longrightarrow>
   msg_inv (map_of (processes s)) m"
  by (simp add: system_inv_def)

lemma system_inv_distinct:
  "system_inv s \<Longrightarrow> distinct (pending_messages s @ delivered_messages s)"
  by (simp add: system_inv_def)

lemma system_inv_local_event:
  assumes inv: "system_inv s"
  shows "system_inv (snd (DistributedSystem_local_event s pid d))"
proof (cases "map_of (processes s) pid")
  case None
  with inv show ?thesis by (simp add: DistributedSystem_local_event_def)
next
  case (Some c)
  let ?c' = "snd (LamportClock_local_event c d)"
  let ?s' = "s\<lparr>processes := AList.update pid ?c' (processes s)\<rparr>"
  have s': "snd (DistributedSystem_local_event s pid d) = ?s'"
    using Some by (simp add: DistributedSystem_local_event_def Let_def)
  have c: "clock_inv pid c" using inv Some by (rule system_inv_clock)
  have "system_inv ?s'"
  proof (rule system_inv_step [OF inv Some])
    show "processes ?s' = AList.update pid ?c' (processes s)" by simp
    show "clock_inv pid ?c'" using c by (rule clock_inv_local_event)
    show "time c \<le> time ?c'" by (simp add: LamportClock_local_event_def Let_def)
    show "\<forall>e\<in>set (events ?c'). recv_inv (delivered_messages ?s') e"
      using system_inv_recv [OF inv Some]
      by (auto simp: LamportClock_local_event_def Let_def recv_inv_def)
    show "set (delivered_messages s) \<subseteq> set (delivered_messages ?s')" by simp
    show "\<forall>m\<in>set (pending_messages ?s') \<union> set (delivered_messages ?s').
            m \<in> set (pending_messages s) \<union> set (delivered_messages s)
            \<or> msg_inv ((map_of (processes s))(pid \<mapsto> ?c')) m" by simp
    show "distinct (pending_messages ?s' @ delivered_messages ?s')"
      using system_inv_distinct [OF inv] by simp
  qed
  with s' show ?thesis by simp
qed

lemma system_inv_send_message:
  assumes inv: "system_inv s"
  shows "system_inv (snd (send_message s a b d))"
proof (cases "map_of (processes s) a")
  case None
  with inv show ?thesis by (simp add: send_message_def)
next
  case (Some c)
  let ?c' = "snd (LamportClock_send c b d)"
  let ?m = "snd (fst (LamportClock_send c b d))"
  let ?s' = "s\<lparr>processes := AList.update a ?c' (processes s),
               pending_messages := pending_messages s @ [?m]\<rparr>"
  have s': "snd (send_message s a b d) = ?s'"
    using Some by (simp add: send_message_def Let_def)
  have c: "clock_inv a c" using inv Some by (rule system_inv_clock)
  have fresh: "?m \<notin> set (pending_messages s) \<union> set (delivered_messages s)"
  proof
    assume "?m \<in> set (pending_messages s) \<union> set (delivered_messages s)"
    with inv have "msg_inv (map_of (processes s)) ?m" by (rule system_inv_msg)
    moreover have "sender ?m = a" "msg_timestamp ?m = time c + 1"
      using c by (simp_all add: LamportClock_send_def Let_def clock_inv_def)
    ultimately show False using Some by (simp add: msg_inv_def)
  qed
  have "system_inv ?s'"
  proof (rule system_inv_step [OF inv Some])
    show "processes ?s' = AList.update a ?c' (processes s)" by simp
    show "clock_inv a ?c'" using c by (rule clock_inv_send)
    show "time c \<le> time ?c'" by (simp add: LamportClock_send_def Let_def)
    show "\<forall>e\<in>set (events ?c'). recv_inv (delivered_messages ?s') e"
      using system_inv_recv [OF inv Some]
      by (auto simp: LamportClock_send_def Let_def recv_inv_def)
    show "set (delivered_messages s) \<subseteq> set (delivered_messages ?s')" by simp
    have "msg_inv ((map_of (processes s))(a \<mapsto> ?c')) ?m"
      using c by (simp add: msg_inv_def LamportClock_send_def Let_def clock_inv_def)
    then show "\<forall>m\<in>set (pending_messages ?s') \<union> set (delivered_messages ?s').
            m \<in> set (pending_messages s) \<union> set (delivered_messages s)
            \<or> msg_inv ((map_of (processes s))(a \<mapsto> ?c')) m" by auto
    show "distinct (pending_messages ?s' @ delivered_messages ?s')"
      using system_inv_distinct [OF inv] fresh by auto
  qed
  with s' show ?thesis by simp
qed

lemma system_inv_deliver_message:
  assumes inv: "system_inv s"
  shows "system_inv (snd (deliver_message s m))"
proof (cases "m \<in> set (pending_messages s)")
  case False
  with inv show ?thesis by (simp add: deliver_message_def)
next
  case True
  let ?s1 = "s\<lparr>pending_messages := remove1 m (pending_messages s),
               delivered_messages := delivered_messages s @ [m]\<rparr>"
  have d1: "distinct (pending_messages ?s1 @ delivered_messages ?s1)"
    using system_inv_distinct [OF inv] True by auto
  have sub: "set (pending_messages ?s1) \<union> set (delivered_messages ?s1)
               \<subseteq> set (pending_messages s) \<union> set (delivered_messages s)"
    using True set_remove1_subset [of m "pending_messages s"] by auto
  show ?thesis
  proof (cases "map_of (processes s) (receiver m)")
    case None
    then have s': "snd (deliver_message s m) = ?s1"
      using True by (simp add: deliver_message_def Let_def)
    have "system_inv ?s1"
      by (rule system_inv_frame [OF inv _ _ sub d1]) auto
    with s' show ?thesis by simp
  next
    case (Some c)
    let ?c' = "snd (LamportClock_receive c m)"
    let ?s' = "?s1\<lparr>processes := AList.update (receiver m) ?c' (processes s)\<rparr>"
    have s': "snd (deliver_message s m) = ?s'"
      using True Some by (simp add: deliver_message_def Let_def)
    have c: "clock_inv (receiver m) c" using inv Some by (rule system_inv_clock)
    have "system_inv ?s'"
    proof (rule system_inv_step [OF inv Some])
      show "processes ?s' = AList.update (receiver m) ?c' (processes s)" by simp
      show "clock_inv (receiver m) ?c'" using c by (rule clock_inv_receive)
      show "time c \<le> time ?c'" by (simp add: LamportClock_receive_def Let_def)
      show "\<forall>e\<in>set (events ?c'). recv_inv (delivered_messages ?s') e"
        using system_inv_recv [OF inv Some]
        by (auto simp: LamportClock_receive_def Let_def recv_inv_def)
      show "set (delivered_messages s) \<subseteq> set (delivered_messages ?s')" by auto
      show "\<forall>m'\<in>set (pending_messages ?s') \<union> set (delivered_messages ?s').
              m' \<in> set (pending_messages s) \<union> set (delivered_messages s)
              \<or> msg_inv ((map_of (processes s))(receiver m \<mapsto> ?c')) m'"
        using sub by auto
      show "distinct (pending_messages ?s' @ delivered_messages ?s')"
        using d1 by simp
    qed
    with s' show ?thesis by simp
  qed
qed

lemma deliver_all_pending_preserves:
  assumes step: "\<And>s m. P s \<Longrightarrow> P (snd (deliver_message s m))"
  shows "P s \<Longrightarrow> P (snd (deliver_all_pending rng s))"
proof (induction rng s rule: deliver_all_pending.induct)
  case (1 rng s)
  show ?case
  proof (cases "pending_messages s = []")
    case True
    with 1 show ?thesis by (simp add: deliver_all_pending.simps [of rng s])
  next
    case False
    let ?m = "pending_messages s ! (rng 0 mod length (pending_messages s))"
    let ?r = "deliver_message s ?m"
    have P': "P (snd ?r)" using "1.prems" by (rule step)
    show ?thesis
    proof (cases "fst ?r")
      case (Inl e)
      with False P' show ?thesis
        by (simp add: deliver_all_pending.simps [of rng s] Let_def)
    next
      case (Inr ev)
      from "1.IH" [OF False refl refl Inr P'] False Inr show ?thesis
        by (simp add: deliver_all_pending.simps [of rng s] Let_def)
    qed
  qed
qed

lemma system_inv_deliver_all_pending:
  "system_inv s \<Longrightarrow> system_inv (snd (deliver_all_pending rng s))"
  by (rule deliver_all_pending_preserves) (rule system_inv_deliver_message)

lemma map_of_init_fold:
  "map_of (fold (\<lambda>pid d. AList.update pid (LamportClock_init pid) d) pids acc) k =
     (if k \<in> set pids then Some (LamportClock_init k) else map_of acc k)"
  by (induction pids arbitrary: acc) (auto simp: update_conv')

lemma distinct_init_fold:
  "distinct (map fst acc) \<Longrightarrow>
   distinct (map fst (fold (\<lambda>pid d. AList.update pid (LamportClock_init pid) d) pids acc))"
  by (induction pids arbitrary: acc) (auto simp: distinct_update)

lemma keys_init_fold:
  "distinct pids \<Longrightarrow> set pids \<inter> fst ` set acc = {} \<Longrightarrow>
   map fst (fold (\<lambda>pid d. AList.update pid (LamportClock_init pid) d) pids acc) = map fst acc @ pids"
proof (induction pids arbitrary: acc)
  case Nil
  then show ?case by simp
next
  case (Cons p pids)
  let ?acc = "AList.update p (LamportClock_init p) acc"
  from Cons.prems have k: "map fst ?acc = map fst acc @ [p]"
    by (simp add: update_keys)
  then have "fst ` set ?acc = insert p (fst ` set acc)"
    by (metis Un_insert_right list.set(1,2) list.set_map set_append sup_bot.right_neutral)
  with Cons.prems have "set pids \<inter> fst ` set ?acc = {}" by auto
  with Cons.IH [of ?acc] Cons.prems k show ?case by simp
qed

lemma system_inv_init: "system_inv (DistributedSystem_init pids)"
proof -
  let ?ps = "fold (\<lambda>pid d. AList.update pid (LamportClock_init pid) d) pids []"
  have "distinct (map fst ?ps)" by (rule distinct_init_fold) simp
  moreover have "clock_inv k c \<and> (\<forall>e\<in>set (events c). recv_inv [] e)"
    if "map_of ?ps k = Some c" for k c
  proof -
    from that have "c = LamportClock_init k"
      by (simp add: map_of_init_fold split: if_splits)
    then show ?thesis by (simp add: clock_inv_init) (simp add: LamportClock_init_def)
  qed
  ultimately show ?thesis
    unfolding system_inv_def DistributedSystem_init_def by simp
qed

definition run_inv :: "Message list \<times> DistributedSystem \<Rightarrow> bool" where
  "run_inv st \<longleftrightarrow>
     system_inv (snd st) \<and>
     mset (fst st) = mset (pending_messages (snd st)) + mset (delivered_messages (snd st))"

lemma deliver_message_conserves:
  "mset (pending_messages (snd (deliver_message s m))) + mset (delivered_messages (snd (deliver_message s m)))
     = mset (pending_messages s) + mset (delivered_messages s)"
  by (auto simp: deliver_message_def Let_def split: option.split)

lemma deliver_all_pending_conserves:
  "mset (pending_messages (snd (deliver_all_pending rng s))) + mset (delivered_messages (snd (deliver_all_pending rng s)))
     = mset (pending_messages s) + mset (delivered_messages s)"
  by (rule deliver_all_pending_preserves [where P = "\<lambda>s'. mset (pending_messages s') + mset (delivered_messages s') = mset (pending_messages s) + mset (delivered_messages s)"])
     (simp_all add: deliver_message_conserves)

lemma run_inv_exec_op: "run_inv st \<Longrightarrow> run_inv (exec_op st op)"
proof (cases st)
  case (Pair created s)
  assume "run_inv st"
  with Pair have inv: "system_inv s"
    and cons: "mset created = mset (pending_messages s) + mset (delivered_messages s)"
    by (simp_all add: run_inv_def)
  show ?thesis
  proof (cases op)
    case (OpLocalEvent pid d)
    have "system_inv (snd (DistributedSystem_local_event s pid d))"
      using inv by (rule system_inv_local_event)
    with Pair OpLocalEvent cons show ?thesis
      by (auto simp: run_inv_def DistributedSystem_local_event_def Let_def split: option.splits)
  next
    case (OpSendMessage a b d)
    have "system_inv (snd (send_message s a b d))" using inv by (rule system_inv_send_message)
    with Pair OpSendMessage cons show ?thesis
      by (auto simp: run_inv_def send_message_def Let_def split: option.splits)
  next
    case (OpDeliverMessage m)
    with Pair inv cons show ?thesis
      by (simp add: run_inv_def system_inv_deliver_message deliver_message_conserves)
  next
    case (OpDeliverAllPending rng)
    with Pair inv cons show ?thesis
      by (simp add: run_inv_def system_inv_deliver_all_pending deliver_all_pending_conserves)
  qed
qed

lemma run_inv_foldl: "run_inv st \<Longrightarrow> run_inv (foldl exec_op st ops)"
  by (induction ops arbitrary: st) (simp_all add: run_inv_exec_op)

lemma run_inv_run: "run_inv (run pids ops)"
  unfolding run_def
proof (rule run_inv_foldl)
  have "pending_messages (DistributedSystem_init pids) = []"
    and "delivered_messages (DistributedSystem_init pids) = []"
    by (simp_all add: DistributedSystem_init_def)
  then show "run_inv ([], DistributedSystem_init pids)"
    by (simp add: run_inv_def system_inv_init)
qed

lemma system_inv_system_of: "system_inv (system_of pids ops)"
  using run_inv_run [of pids ops] by (simp add: run_inv_def system_of_def)

section \<open>Properties of a single clock\<close>

text \<open>
  Claim C2. For every process state and every message, \<^verbatim>\<open>receive(message)\<close> sets the
  clock to \<open>max (time, message.timestamp) + 1\<close>, appends one RECEIVE event carrying
  exactly that value to the log and returns it, and the value is strictly greater than
  both the clock's prior value and the message's send timestamp: it can never equal the
  send timestamp.
\<close>

theorem receive_max_plus_one:
  "time (snd (LamportClock_receive c m)) = max (time c) (msg_timestamp m) + 1
   \<and> events (snd (LamportClock_receive c m)) = events c @ [fst (LamportClock_receive c m)]
   \<and> event_type (fst (LamportClock_receive c m)) = RECEIVE
   \<and> message_id (fst (LamportClock_receive c m)) = Some (msg_id m)
   \<and> timestamp (fst (LamportClock_receive c m)) = max (time c) (msg_timestamp m) + 1
   \<and> time c < timestamp (fst (LamportClock_receive c m))
   \<and> msg_timestamp m < timestamp (fst (LamportClock_receive c m))
   \<and> timestamp (fst (LamportClock_receive c m)) \<noteq> msg_timestamp m"
  by (simp add: LamportClock_receive_def Let_def)

text \<open>Claim C2 at the boundary where the local clock equals the message's timestamp:
  a clock at time 2 receiving a message stamped 2 moves to 3.\<close>

theorem receive_max_plus_one_boundary:
  "(let c = \<lparr>clock_process_id = ''B'', time = 2, events = []\<rparr>;
        m = \<lparr>msg_id = ''A-2'', sender = ''A'', receiver = ''B'', msg_timestamp = 2,
              content = ''Hello B''\<rparr>
    in time (snd (LamportClock_receive c m)) = 3
       \<and> timestamp (fst (LamportClock_receive c m)) = 3
       \<and> event_type (fst (LamportClock_receive c m)) = RECEIVE)"
  using receive_max_plus_one
    [of "\<lparr>clock_process_id = ''B'', time = 2, events = []\<rparr>"
        "\<lparr>msg_id = ''A-2'', sender = ''A'', receiver = ''B'', msg_timestamp = 2,
          content = ''Hello B''\<rparr>"]
  by (simp add: Let_def)

text \<open>The clock invariant holds along every sequence of clock operations.\<close>

lemma clock_inv_exec_clock_op: "clock_inv k c \<Longrightarrow> clock_inv k (exec_clock_op c op)"
  by (cases op) (simp_all add: clock_inv_local_event clock_inv_send clock_inv_receive)

lemma clock_inv_foldl: "clock_inv k c \<Longrightarrow> clock_inv k (foldl exec_clock_op c ops)"
  by (induction ops arbitrary: c) (simp_all add: clock_inv_exec_clock_op)

lemma clock_inv_run_clock: "clock_inv pid (run_clock pid ops)"
  unfolding run_clock_def by (rule clock_inv_foldl) (rule clock_inv_init)

lemma clock_inv_sorted: "clock_inv k c \<Longrightarrow> sorted_wrt (<) (map timestamp (events c))"
  by (simp add: clock_inv_def)

lemma system_inv_all_sorted:
  assumes "system_inv s"
  shows "list_all (\<lambda>p. sorted_wrt (<) (map timestamp (events (snd p)))) (processes s)"
proof -
  have "sorted_wrt (<) (map timestamp (events (snd p)))" if "p \<in> set (processes s)" for p
  proof -
    from assms have "distinct (map fst (processes s))" by (simp add: system_inv_def)
    with that have "map_of (processes s) (fst p) = Some (snd p)" by simp
    with assms have "clock_inv (fst p) (snd p)" by (rule system_inv_clock)
    then show ?thesis by (rule clock_inv_sorted)
  qed
  then show ?thesis by (simp add: list_all_iff)
qed

text \<open>
  Claim C3. The timestamps in a process's event log are strictly increasing in insertion
  order: after every sequence of \<^verbatim>\<open>local_event\<close>, \<^verbatim>\<open>send\<close> and \<^verbatim>\<open>receive\<close> calls
  on a fresh clock, and so again after one more operation (every operation preserves the
  order); and for the log of every process of a system after any run of the system's
  operations.
\<close>

theorem log_strictly_increasing:
  "sorted_wrt (<) (map timestamp (events (run_clock pid cops)))
   \<and> sorted_wrt (<) (map timestamp (events (exec_clock_op (run_clock pid cops) cop)))
   \<and> list_all (\<lambda>p. sorted_wrt (<) (map timestamp (events (snd p))))
        (processes (system_of pids ops))"
  using clock_inv_sorted [OF clock_inv_run_clock [of pid cops]]
    clock_inv_sorted [OF clock_inv_exec_clock_op [OF clock_inv_run_clock [of pid cops], of cop]]
    system_inv_all_sorted [OF system_inv_system_of [of pids ops]]
  by simp

text \<open>Claim C3 on a concrete clock (a local event, the receipt of a message stamped
  5, a send, then one more local event) and a concrete system run.\<close>

theorem log_strictly_increasing_example:
  "(let m = \<lparr>msg_id = ''A-5'', sender = ''A'', receiver = ''P'', msg_timestamp = 5,
              content = ''x''\<rparr>;
        cops = [ClockLocalEvent ''a'', ClockReceive m, ClockSend ''A'' ''y'']
    in map timestamp (events (run_clock ''P'' cops)) = [1, 6, 7]
       \<and> map timestamp (events (exec_clock_op (run_clock ''P'' cops) (ClockLocalEvent ''b'')))
           = [1, 6, 7, 8]
       \<and> sorted_wrt (<) (map timestamp (events (run_clock ''P'' cops)))
       \<and> map (\<lambda>p. map timestamp (events (snd p)))
            (processes (system_of [''A'', ''B'']
               [OpLocalEvent ''A'' ''a'', OpSendMessage ''A'' ''B'' ''x'', OpLocalEvent ''B'' ''b'']))
           = [[1, 2], [1]])"
  using log_strictly_increasing
    [of "''P''"
        "[ClockLocalEvent ''a'',
          ClockReceive \<lparr>msg_id = ''A-5'', sender = ''A'', receiver = ''P'', msg_timestamp = 5,
                         content = ''x''\<rparr>,
          ClockSend ''A'' ''y'']"
        "ClockLocalEvent ''b''" "[''A'', ''B'']"
        "[OpLocalEvent ''A'' ''a'', OpSendMessage ''A'' ''B'' ''x'', OpLocalEvent ''B'' ''b'']"]
  by (simp add: run_clock_def system_of_def run_def DistributedSystem_init_def
        LamportClock_init_def DistributedSystem_local_event_def send_message_def
        LamportClock_local_event_def LamportClock_send_def LamportClock_receive_def Let_def)

section \<open>The scenario of \<^verbatim>\<open>demo\<close>\<close>

text \<open>The run is evaluated call by call: the continuation of \<open>and_then\<close> is only
  entered once the call before it has been reduced to its outcome and state.\<close>

lemma and_then_weak_cong: "r = r' \<Longrightarrow> and_then r f = and_then r' f"
  by simp

lemmas demo_eval =
  and_then_def DistributedSystem_init_def LamportClock_init_def
  DistributedSystem_local_event_def send_message_def deliver_message_def
  LamportClock_local_event_def LamportClock_send_def LamportClock_receive_def
  message_id_of_def str_int_def str_nat.simps digit_char_lits Let_def

lemma demo_receives:
  "map_sum id (\<lambda>(r1, r2, r3). (event_key r1, event_key r2, event_key r3)) (fst demo) =
     Inr ((3, ''B''), (5, ''C''), (7, ''A''))"
  unfolding demo_def
  by (simp add: demo_eval event_key_def cong: and_then_weak_cong)

lemma demo_history_keys:
  "map event_key (get_global_history (snd demo)) =
     [(1, ''A''), (1, ''B''), (1, ''C''), (2, ''A''), (2, ''B''), (3, ''A''),
      (3, ''B''), (4, ''B''), (5, ''C''), (6, ''C''), (7, ''A'')]"
  unfolding demo_def
  by (simp add: demo_eval get_global_history_def event_key_def cong: and_then_weak_cong)

lemma demo_verify: "verify_causality (snd demo) = Inr []"
  unfolding demo_def
  by (simp add: demo_eval verify_causality_def find_event_def cong: and_then_weak_cong)

text \<open>
  Claim C1, as amended. The scenario runs without an exception; the three deliveries
  return RECEIVE events at B@3, C@5 and A@7; \<^verbatim>\<open>verify_causality\<close> returns the empty
  list; and the global history has 11 entries, one per call of the scenario, in the order
  (1,A) (1,B) (1,C) (2,A) (2,B) (3,A) (3,B) (4,B) (5,C) (6,C) (7,A): the local event
  A@3 (\<^verbatim>\<open>"Continue processing"\<close>) stands between (2,B) and (3,B).
\<close>

theorem demo_scenario:
  "map_sum id (\<lambda>(r1, r2, r3). (event_key r1, event_key r2, event_key r3)) (fst demo) =
     Inr ((3, ''B''), (5, ''C''), (7, ''A''))
   \<and> verify_causality (snd demo) = Inr []
   \<and> length (get_global_history (snd demo)) = 11
   \<and> map event_key (get_global_history (snd demo)) =
       [(1, ''A''), (1, ''B''), (1, ''C''), (2, ''A''), (2, ''B''), (3, ''A''),
        (3, ''B''), (4, ''B''), (5, ''C''), (6, ''C''), (7, ''A'')]"
proof -
  have "length (map event_key (get_global_history (snd demo))) = 11"
    by (simp only: demo_history_keys) simp
  then have "length (get_global_history (snd demo)) = 11"
    by simp
  with demo_receives demo_verify demo_history_keys show ?thesis
    by simp
qed

text \<open>
  Claim C1, the counterexample to the claim as stated: the global history of the scenario
  does not have 10 entries, and its keys are not the ten pairs the claim lists.
\<close>

theorem demo_history_not_ten_entries:
  "length (get_global_history (snd demo)) \<noteq> 10
   \<and> map event_key (get_global_history (snd demo)) \<noteq>
       [(1, ''A''), (1, ''B''), (1, ''C''), (2, ''A''), (2, ''B''),
        (3, ''B''), (4, ''B''), (5, ''C''), (6, ''C''), (7, ''A'')]"
proof -
  have "length (map event_key (get_global_history (snd demo))) = 11"
    by (simp only: demo_history_keys) simp
  then have "length (get_global_history (snd demo)) \<noteq> 10"
    by simp
  then show ?thesis
    by (simp add: demo_history_keys)
qed

section \<open>Construction\<close>

lemma init_processes_fresh:
  "processes (DistributedSystem_init pids) =
     map (\<lambda>k. (k, LamportClock_init k)) (map fst (processes (DistributedSystem_init pids)))"
proof -
  let ?ps = "processes (DistributedSystem_init pids)"
  have d: "distinct (map fst ?ps)"
    using system_inv_init [of pids] by (simp add: system_inv_def)
  have "p = (fst p, LamportClock_init (fst p))" if "p \<in> set ?ps" for p
  proof -
    from d that have "map_of ?ps (fst p) = Some (snd p)" by simp
    then have "snd p = LamportClock_init (fst p)"
      by (simp add: DistributedSystem_init_def map_of_init_fold split: if_splits)
    then show ?thesis by (metis prod.collapse)
  qed
  then have "map (\<lambda>p. (fst p, LamportClock_init (fst p))) ?ps = ?ps"
    by (simp add: map_idI)
  then show ?thesis by (simp add: comp_def)
qed

lemma init_keys: "set (map fst (processes (DistributedSystem_init pids))) = set pids"
proof -
  have "fst ` set (processes (DistributedSystem_init pids)) = dom (map_of (processes (DistributedSystem_init pids)))"
    by (simp add: dom_map_of_conv_image_fst)
  also have "\<dots> = set pids"
    by (auto simp: DistributedSystem_init_def map_of_init_fold dom_def)
  finally show ?thesis by simp
qed

text \<open>
  Claim C4, as amended. Construction never fails: for every list of process ids, empty
  or with repeated ids included, the constructor returns a system whose process table
  has exactly the given ids as keys, each once and each with a fresh clock (time 0, empty
  log), and whose message collections are empty; for a list of distinct ids the keys are
  the list itself, in its order.
\<close>

theorem construct_never_fails:
  "DistributedSystem_construct pids = Inr (DistributedSystem_init pids)
   \<and> set (map fst (processes (DistributedSystem_init pids))) = set pids
   \<and> distinct (map fst (processes (DistributedSystem_init pids)))
   \<and> processes (DistributedSystem_init pids) =
       map (\<lambda>k. (k, LamportClock_init k)) (map fst (processes (DistributedSystem_init pids)))
   \<and> pending_messages (DistributedSystem_init pids) = []
   \<and> delivered_messages (DistributedSystem_init pids) = []
   \<and> (distinct pids \<longrightarrow> map fst (processes (DistributedSystem_init pids)) = pids)"
proof -
  have "distinct (map fst (processes (DistributedSystem_init pids)))"
    using system_inv_init [of pids] by (simp add: system_inv_def)
  moreover have "map fst (processes (DistributedSystem_init pids)) = pids" if "distinct pids"
    using keys_init_fold [OF that, of "[]"] by (simp add: DistributedSystem_init_def)
  moreover have "pending_messages (DistributedSystem_init pids) = []"
    "delivered_messages (DistributedSystem_init pids) = []"
    by (simp_all add: DistributedSystem_init_def)
  ultimately show ?thesis
    using init_keys [of pids] init_processes_fresh [of pids]
    by (simp add: DistributedSystem_construct_def)
qed

text \<open>Claim C4, the witness: the theorem at the two distinct ids A and B.\<close>

theorem construct_never_fails_witness:
  "distinct [''A'', ''B'']
   \<and> DistributedSystem_construct [''A'', ''B''] = Inr (DistributedSystem_init [''A'', ''B''])
   \<and> map fst (processes (DistributedSystem_init [''A'', ''B''])) = [''A'', ''B'']"
  using construct_never_fails [of "[''A'', ''B'']"] by simp

text \<open>
  Claim C4, the counterexample to the claim as stated: the constructor returns a system
  for the empty list (an empty process table), and for the list A, A (one process A).
\<close>

theorem construct_accepts_empty_and_duplicates:
  "DistributedSystem_construct [] =
     Inr \<lparr>processes = [], pending_messages = [], delivered_messages = []\<rparr>
   \<and> DistributedSystem_construct [''A'', ''A''] =
     Inr \<lparr>processes = [(''A'', \<lparr>clock_process_id = ''A'', time = 0, events = []\<rparr>)],
          pending_messages = [], delivered_messages = []\<rparr>"
  by (simp add: DistributedSystem_construct_def DistributedSystem_init_def LamportClock_init_def)

section \<open>Sending\<close>

text \<open>
  Claim C5, as amended. \<^verbatim>\<open>send_message\<close> raises (\<^verbatim>\<open>KeyError\<close>, with the state unchanged)
  exactly when the sender is not a registered process; the receiver is not checked. When
  the sender is registered, the call performs the sender's \<^verbatim>\<open>send\<close>, stores the updated
  clock, appends the resulting message to the pending list and returns it, for every
  receiver: a registered one, the sender itself (loopback), or an id that is not
  registered.
\<close>

theorem send_message_checks_sender_only:
  "(map_of (processes s) a = None \<longrightarrow> send_message s a b d = (Inl (KeyError a), s))
   \<and> (\<forall>c. map_of (processes s) a = Some c \<longrightarrow>
         send_message s a b d =
           (Inr (snd (fst (LamportClock_send c b d))),
            s\<lparr>processes := AList.update a (snd (LamportClock_send c b d)) (processes s),
              pending_messages := pending_messages s @ [snd (fst (LamportClock_send c b d))]\<rparr>))
   \<and> ((\<exists>e. fst (send_message s a b d) = Inl e) \<longleftrightarrow> a \<notin> fst ` set (processes s))"
proof -
  have "map_of (processes s) a = None \<longleftrightarrow> a \<notin> fst ` set (processes s)"
    by (simp add: map_of_eq_None_iff)
  then show ?thesis
    by (cases "map_of (processes s) a") (simp_all add: send_message_def Let_def)
qed

text \<open>Claim C5, the witness: an unregistered sender Q is refused, and the loopback send
  from A to A is accepted and left pending.\<close>

theorem send_message_checks_sender_only_witness:
  "map_of (processes (DistributedSystem_init [''A''])) ''Q'' = None
   \<and> send_message (DistributedSystem_init [''A'']) ''Q'' ''A'' ''x'' =
       (Inl (KeyError ''Q''), DistributedSystem_init [''A''])
   \<and> map_of (processes (DistributedSystem_init [''A''])) ''A'' = Some (LamportClock_init ''A'')
   \<and> fst (send_message (DistributedSystem_init [''A'']) ''A'' ''A'' ''x'') =
       Inr \<lparr>msg_id = ''A-1'', sender = ''A'', receiver = ''A'', msg_timestamp = 1, content = ''x''\<rparr>
   \<and> pending_messages (snd (send_message (DistributedSystem_init [''A'']) ''A'' ''A'' ''x'')) =
       [\<lparr>msg_id = ''A-1'', sender = ''A'', receiver = ''A'', msg_timestamp = 1, content = ''x''\<rparr>]"
  using send_message_checks_sender_only [of "DistributedSystem_init [''A'']" "''Q''" "''A''" "''x''"]
    send_message_checks_sender_only [of "DistributedSystem_init [''A'']" "''A''" "''A''" "''x''"]
  by (simp add: DistributedSystem_init_def LamportClock_init_def LamportClock_send_def
        message_id_of_def str_int_def str_nat.simps digit_char_lits Let_def)

text \<open>
  Claim C5, the counterexample to the claim as stated: in the system with the single
  process A, sending from A to the unregistered id Z raises nothing; the message is
  returned and is pending.
\<close>

theorem send_to_unregistered_receiver_accepted:
  "''Z'' \<notin> fst ` set (processes (DistributedSystem_init [''A'']))
   \<and> fst (send_message (DistributedSystem_init [''A'']) ''A'' ''Z'' ''x'') =
       Inr \<lparr>msg_id = ''A-1'', sender = ''A'', receiver = ''Z'', msg_timestamp = 1, content = ''x''\<rparr>
   \<and> pending_messages (snd (send_message (DistributedSystem_init [''A'']) ''A'' ''Z'' ''x'')) =
       [\<lparr>msg_id = ''A-1'', sender = ''A'', receiver = ''Z'', msg_timestamp = 1, content = ''x''\<rparr>]"
  by (simp add: DistributedSystem_init_def LamportClock_init_def send_message_def
        LamportClock_send_def message_id_of_def str_int_def str_nat.simps digit_char_lits Let_def)

section \<open>Conservation of messages\<close>

text \<open>
  Claim C7. After every run of the public operations (exceptions included), the messages
  ever created, that is those returned by \<^verbatim>\<open>send_message\<close>, are as a multiset exactly
  the pending messages together with the delivered ones; so their number is the sum of the
  two lengths, each created message was created once, it is in one of the two collections,
  and no message is in both.
\<close>

theorem messages_conserved:
  "mset (created_of pids ops) =
     mset (pending_messages (system_of pids ops)) + mset (delivered_messages (system_of pids ops))
   \<and> length (created_of pids ops) =
     length (pending_messages (system_of pids ops)) + length (delivered_messages (system_of pids ops))
   \<and> distinct (created_of pids ops)
   \<and> set (created_of pids ops) =
     set (pending_messages (system_of pids ops)) \<union> set (delivered_messages (system_of pids ops))
   \<and> set (pending_messages (system_of pids ops)) \<inter> set (delivered_messages (system_of pids ops)) = {}"
proof -
  let ?s = "system_of pids ops"
  have m: "mset (created_of pids ops) = mset (pending_messages ?s @ delivered_messages ?s)"
    using run_inv_run [of pids ops] by (simp add: run_inv_def created_of_def system_of_def)
  have d: "distinct (pending_messages ?s @ delivered_messages ?s)"
    using system_inv_system_of [of pids ops] by (rule system_inv_distinct)
  have c1: "mset (created_of pids ops) = mset (pending_messages ?s) + mset (delivered_messages ?s)"
    using m by simp
  have c2: "length (created_of pids ops) = length (pending_messages ?s) + length (delivered_messages ?s)"
    using mset_eq_length [OF m] by simp
  have c3: "distinct (created_of pids ops)"
    using mset_eq_imp_distinct_iff [OF m] d by blast
  have c4: "set (created_of pids ops) = set (pending_messages ?s) \<union> set (delivered_messages ?s)"
    using mset_eq_setD [OF m] by simp
  have c5: "set (pending_messages ?s) \<inter> set (delivered_messages ?s) = {}"
    using d by simp
  from c1 c2 c3 c4 c5 show ?thesis by blast
qed

text \<open>Evaluation of runs on concrete process ids and operations.\<close>

lemmas run_eval = system_of_def created_of_def run_def demo_eval

text \<open>Claim C7 on a concrete run: two messages are created, one is delivered and one
  stays pending; a second delivery attempt and a send from an unknown process raise and
  change nothing.\<close>

theorem messages_conserved_example:
  "(let m1 = \<lparr>msg_id = ''A-1'', sender = ''A'', receiver = ''B'', msg_timestamp = 1,
               content = ''x''\<rparr>;
        m2 = \<lparr>msg_id = ''B-1'', sender = ''B'', receiver = ''A'', msg_timestamp = 1,
               content = ''y''\<rparr>;
        ops = [OpSendMessage ''A'' ''B'' ''x'', OpSendMessage ''B'' ''A'' ''y'',
               OpDeliverMessage m1, OpDeliverMessage m1, OpSendMessage ''Q'' ''A'' ''z'']
    in created_of [''A'', ''B''] ops = [m1, m2]
       \<and> pending_messages (system_of [''A'', ''B''] ops) = [m2]
       \<and> delivered_messages (system_of [''A'', ''B''] ops) = [m1])"
proof -
  let ?m1 = "\<lparr>msg_id = ''A-1'', sender = ''A'', receiver = ''B'', msg_timestamp = 1,
               content = ''x''\<rparr>"
  let ?m2 = "\<lparr>msg_id = ''B-1'', sender = ''B'', receiver = ''A'', msg_timestamp = 1,
               content = ''y''\<rparr>"
  let ?ops = "[OpSendMessage ''A'' ''B'' ''x'', OpSendMessage ''B'' ''A'' ''y'',
               OpDeliverMessage ?m1, OpDeliverMessage ?m1, OpSendMessage ''Q'' ''A'' ''z'']"
  have r: "run [''A'', ''B''] ?ops =
      ([?m1, ?m2],
       \<lparr>processes =
          [(''A'', \<lparr>clock_process_id = ''A'', time = 1,
                    events = [\<lparr>process_id = ''A'', event_type = SEND, timestamp = 1,
                               description = ''Send to B: x'', message_id = Some ''A-1''\<rparr>]\<rparr>),
           (''B'', \<lparr>clock_process_id = ''B'', time = 2,
                    events = [\<lparr>process_id = ''B'', event_type = SEND, timestamp = 1,
                               description = ''Send to A: y'', message_id = Some ''B-1''\<rparr>,
                              \<lparr>process_id = ''B'', event_type = RECEIVE, timestamp = 2,
                               description = ''Receive from A: x'', message_id = Some ''A-1''\<rparr>]\<rparr>)],
        pending_messages = [?m2], delivered_messages = [?m1]\<rparr>)"
    by (simp add: run_def demo_eval)
  from messages_conserved [of "[''A'', ''B'']" ?ops] show ?thesis
    unfolding Let_def created_of_def system_of_def r by simp
qed

section \<open>Delivery\<close>

lemma deliver_message_not_pending:
  "m \<notin> set (pending_messages s) \<Longrightarrow>
   deliver_message s m =
     (Inl (ValueError (''Message '' @ msg_id m @ '' not in pending queue'')), s)"
  by (simp add: deliver_message_def)

lemma deliver_message_delivered:
  "m \<in> set (pending_messages s) \<Longrightarrow>
   delivered_messages (snd (deliver_message s m)) = delivered_messages s @ [m]"
  by (simp add: deliver_message_def Let_def split: option.split)

lemma deliver_message_registered:
  "m \<in> set (pending_messages s) \<Longrightarrow> map_of (processes s) (receiver m) = Some c \<Longrightarrow>
   fst (deliver_message s m) = Inr (fst (LamportClock_receive c m))
   \<and> processes (snd (deliver_message s m)) =
       AList.update (receiver m) (snd (LamportClock_receive c m)) (processes s)"
  by (simp add: deliver_message_def Let_def)

lemma deliver_message_pending_no_ValueError:
  "m \<in> set (pending_messages s) \<Longrightarrow> fst (deliver_message s m) \<noteq> Inl (ValueError t)"
  by (simp add: deliver_message_def Let_def split: option.split)

lemma deliver_message_twice:
  assumes "system_inv s"
  shows "m \<notin> set (pending_messages (snd (deliver_message s m)))"
proof (cases "m \<in> set (pending_messages s)")
  case True
  from system_inv_distinct [OF assms] have "distinct (pending_messages s)" by simp
  with True show ?thesis by (simp add: deliver_message_pending)
next
  case False
  then show ?thesis by (simp add: deliver_message_pending)
qed

text \<open>
  Claim C6, as amended. \<^verbatim>\<open>deliver_message\<close> raises \<^verbatim>\<open>ValueError\<close> (the code's
  message-not-pending error) if and only if no pending message equals the argument on all
  five fields, and then changes nothing. Otherwise it removes the first such message from
  the pending list and appends it to the delivered list; and when the message's receiver
  is a registered process, it performs that process's \<^verbatim>\<open>receive\<close>, stores the updated
  clock and returns the resulting RECEIVE event. In every state reached by a run of the
  public operations, delivering the same message a second time raises \<^verbatim>\<open>ValueError\<close>.
\<close>

theorem deliver_message_contract:
  "(fst (deliver_message s m) =
      Inl (ValueError (''Message '' @ msg_id m @ '' not in pending queue''))
    \<longleftrightarrow> m \<notin> set (pending_messages s))
   \<and> (m \<notin> set (pending_messages s) \<longrightarrow> snd (deliver_message s m) = s)
   \<and> (m \<in> set (pending_messages s) \<longrightarrow>
        pending_messages (snd (deliver_message s m)) = remove1 m (pending_messages s)
        \<and> delivered_messages (snd (deliver_message s m)) = delivered_messages s @ [m])
   \<and> (\<forall>c. m \<in> set (pending_messages s) \<and> map_of (processes s) (receiver m) = Some c \<longrightarrow>
        fst (deliver_message s m) = Inr (fst (LamportClock_receive c m))
        \<and> event_type (fst (LamportClock_receive c m)) = RECEIVE
        \<and> processes (snd (deliver_message s m)) =
            AList.update (receiver m) (snd (LamportClock_receive c m)) (processes s))
   \<and> fst (deliver_message (snd (deliver_message (system_of pids ops) m)) m) =
        Inl (ValueError (''Message '' @ msg_id m @ '' not in pending queue''))"
proof -
  have a: "fst (deliver_message s m) =
      Inl (ValueError (''Message '' @ msg_id m @ '' not in pending queue''))
    \<longleftrightarrow> m \<notin> set (pending_messages s)"
    using deliver_message_not_pending [of m s] deliver_message_pending_no_ValueError [of m s]
    by auto
  have b: "m \<notin> set (pending_messages s) \<longrightarrow> snd (deliver_message s m) = s"
    by (simp add: deliver_message_not_pending)
  have c: "m \<in> set (pending_messages s) \<longrightarrow>
        pending_messages (snd (deliver_message s m)) = remove1 m (pending_messages s)
        \<and> delivered_messages (snd (deliver_message s m)) = delivered_messages s @ [m]"
    by (simp add: deliver_message_pending deliver_message_delivered)
  have d: "\<forall>c. m \<in> set (pending_messages s) \<and> map_of (processes s) (receiver m) = Some c \<longrightarrow>
        fst (deliver_message s m) = Inr (fst (LamportClock_receive c m))
        \<and> event_type (fst (LamportClock_receive c m)) = RECEIVE
        \<and> processes (snd (deliver_message s m)) =
            AList.update (receiver m) (snd (LamportClock_receive c m)) (processes s)"
    using deliver_message_registered [of m s]
    by (simp add: LamportClock_receive_def Let_def)
  have e: "fst (deliver_message (snd (deliver_message (system_of pids ops) m)) m) =
        Inl (ValueError (''Message '' @ msg_id m @ '' not in pending queue''))"
    using deliver_message_twice [OF system_inv_system_of [of pids ops], of m]
    by (simp add: deliver_message_not_pending)
  from a b c d e show ?thesis by blast
qed

text \<open>Claim C6, the witness: A sends to B; the message is pending and B is registered,
  so its delivery returns the RECEIVE event B@2 and moves the message; a second delivery
  raises, as does the delivery of a message that was never sent.\<close>

theorem deliver_message_contract_witness:
  "(let S = system_of [''A'', ''B''] [OpSendMessage ''A'' ''B'' ''x''];
        m = \<lparr>msg_id = ''A-1'', sender = ''A'', receiver = ''B'', msg_timestamp = 1, content = ''x''\<rparr>;
        m2 = \<lparr>msg_id = ''B-9'', sender = ''B'', receiver = ''A'', msg_timestamp = 9, content = ''x''\<rparr>
    in m \<in> set (pending_messages S)
       \<and> map_of (processes S) (receiver m) = Some (LamportClock_init ''B'')
       \<and> fst (deliver_message S m) =
           Inr \<lparr>process_id = ''B'', event_type = RECEIVE, timestamp = 2,
                description = ''Receive from A: x'', message_id = Some ''A-1''\<rparr>
       \<and> pending_messages (snd (deliver_message S m)) = []
       \<and> delivered_messages (snd (deliver_message S m)) = [m]
       \<and> fst (deliver_message (snd (deliver_message S m)) m) =
           Inl (ValueError ''Message A-1 not in pending queue'')
       \<and> m2 \<notin> set (pending_messages S)
       \<and> deliver_message S m2 = (Inl (ValueError ''Message B-9 not in pending queue''), S))"
  using
    deliver_message_contract
      [of "system_of [''A'', ''B''] [OpSendMessage ''A'' ''B'' ''x'']"
          "\<lparr>msg_id = ''A-1'', sender = ''A'', receiver = ''B'', msg_timestamp = 1, content = ''x''\<rparr>"
          "[''A'', ''B'']" "[OpSendMessage ''A'' ''B'' ''x'']"]
    deliver_message_contract
      [of "system_of [''A'', ''B''] [OpSendMessage ''A'' ''B'' ''x'']"
          "\<lparr>msg_id = ''B-9'', sender = ''B'', receiver = ''A'', msg_timestamp = 9, content = ''x''\<rparr>"
          "[''A'', ''B'']" "[OpSendMessage ''A'' ''B'' ''x'']"]
  by (simp add: run_eval)

text \<open>
  Claim C6, the counterexample to the claim as stated. First, a pending message whose
  receiver Z is not registered: its delivery returns no RECEIVE event but raises
  \<^verbatim>\<open>KeyError\<close>, after the message has been moved to the delivered list. Second, a message
  that has the id of the pending message but another content: the lookup is not by id,
  and the delivery raises \<^verbatim>\<open>ValueError\<close> although a message with that id is pending.
\<close>

theorem deliver_message_keyerror_and_field_equality:
  "(let S = system_of [''A''] [OpSendMessage ''A'' ''Z'' ''x''];
        m = \<lparr>msg_id = ''A-1'', sender = ''A'', receiver = ''Z'', msg_timestamp = 1, content = ''x''\<rparr>
    in m \<in> set (pending_messages S)
       \<and> fst (deliver_message S m) = Inl (KeyError ''Z'')
       \<and> pending_messages (snd (deliver_message S m)) = []
       \<and> delivered_messages (snd (deliver_message S m)) = [m])
   \<and> (let S = system_of [''A'', ''B''] [OpSendMessage ''A'' ''B'' ''x''];
           m' = \<lparr>msg_id = ''A-1'', sender = ''A'', receiver = ''B'', msg_timestamp = 1, content = ''y''\<rparr>
       in map msg_id (pending_messages S) = [msg_id m']
          \<and> fst (deliver_message S m') = Inl (ValueError ''Message A-1 not in pending queue''))"
  by (simp add: run_eval)

section \<open>Delivering all pending messages\<close>

lemma deliver_message_keys:
  "fst ` set (processes (snd (deliver_message s m))) = fst ` set (processes s)"
proof -
  have "fst ` set (AList.update k v al) = fst ` set al" if "map_of al k = Some c" for k v c
    and al :: "(string \<times> LamportClock) list"
  proof -
    from that have "k \<in> fst ` set al" by (metis map_of_eq_None_iff option.distinct(1))
    then have "map fst (AList.update k v al) = map fst al" by (simp add: update_keys)
    then show ?thesis by (metis list.set_map)
  qed
  then show ?thesis
    by (auto simp: deliver_message_def Let_def split: option.split)
qed

lemma deliver_all_pending_registered:
  "\<forall>m\<in>set (pending_messages s). receiver m \<in> fst ` set (processes s) \<Longrightarrow>
   fst (deliver_all_pending rng s) = Inr ()
   \<and> pending_messages (snd (deliver_all_pending rng s)) = []"
proof (induction rng s rule: deliver_all_pending.induct)
  case (1 rng s)
  show ?case
  proof (cases "pending_messages s = []")
    case True
    then show ?thesis by (simp add: deliver_all_pending.simps [of rng s])
  next
    case False
    let ?m = "pending_messages s ! (rng 0 mod length (pending_messages s))"
    let ?r = "deliver_message s ?m"
    from False have mem: "?m \<in> set (pending_messages s)" by simp
    with "1.prems" have "receiver ?m \<in> fst ` set (processes s)" by blast
    then obtain c where c: "map_of (processes s) (receiver ?m) = Some c"
      by (metis map_of_eq_None_iff not_Some_eq)
    from deliver_message_registered [OF mem c]
    have ok: "fst ?r = Inr (fst (LamportClock_receive c ?m))" by simp
    have "set (pending_messages (snd ?r)) \<subseteq> set (pending_messages s)"
      using set_remove1_subset [of ?m "pending_messages s"] by (simp add: deliver_message_pending)
    with "1.prems" have "\<forall>m\<in>set (pending_messages (snd ?r)). receiver m \<in> fst ` set (processes (snd ?r))"
      by (auto simp: deliver_message_keys)
    from "1.IH" [OF False refl refl ok this] False ok show ?thesis
      by (simp add: deliver_all_pending.simps [of rng s] Let_def)
  qed
qed

lemma deliver_all_pending_normal_return:
  "fst (deliver_all_pending rng s) = Inr () \<Longrightarrow>
   pending_messages (snd (deliver_all_pending rng s)) = []"
proof (induction rng s rule: deliver_all_pending.induct)
  case (1 rng s)
  show ?case
  proof (cases "pending_messages s = []")
    case True
    then show ?thesis by (simp add: deliver_all_pending.simps [of rng s])
  next
    case False
    let ?m = "pending_messages s ! (rng 0 mod length (pending_messages s))"
    let ?r = "deliver_message s ?m"
    show ?thesis
    proof (cases "fst ?r")
      case (Inl e)
      with False "1.prems" show ?thesis
        by (simp add: deliver_all_pending.simps [of rng s] Let_def)
    next
      case (Inr ev)
      with False "1.prems" have "fst (deliver_all_pending (\<lambda>i. rng (Suc i)) (snd ?r)) = Inr ()"
        by (simp add: deliver_all_pending.simps [of rng s] Let_def)
      from "1.IH" [OF False refl refl Inr this] False Inr show ?thesis
        by (simp add: deliver_all_pending.simps [of rng s] Let_def)
    qed
  qed
qed

text \<open>
  Claim C10, as amended. \<^verbatim>\<open>deliver_all_pending\<close> terminates in every state and for
  every draw sequence (the function is total). If every pending message's receiver is a
  registered process, it returns normally and leaves the pending list empty; whenever it
  returns normally the pending list is empty. Each delivery of a pending message shortens
  the pending list by exactly one, no delivery adds a pending message, and the messages
  of the two collections together stay the same.
\<close>

theorem deliver_all_pending_drains:
  "((\<forall>m\<in>set (pending_messages s). receiver m \<in> fst ` set (processes s)) \<longrightarrow>
      fst (deliver_all_pending rng s) = Inr ()
      \<and> pending_messages (snd (deliver_all_pending rng s)) = [])
   \<and> (fst (deliver_all_pending rng s) = Inr () \<longrightarrow>
        pending_messages (snd (deliver_all_pending rng s)) = [])
   \<and> (\<forall>m\<in>set (pending_messages s).
        Suc (length (pending_messages (snd (deliver_message s m)))) = length (pending_messages s))
   \<and> set (pending_messages (snd (deliver_message s m'))) \<subseteq> set (pending_messages s)
   \<and> mset (pending_messages (snd (deliver_all_pending rng s))) +
       mset (delivered_messages (snd (deliver_all_pending rng s))) =
       mset (pending_messages s) + mset (delivered_messages s)"
proof -
  have "set (pending_messages (snd (deliver_message s m'))) \<subseteq> set (pending_messages s)"
    using set_remove1_subset [of m' "pending_messages s"] by (simp add: deliver_message_pending)
  with deliver_all_pending_registered [of s rng] deliver_all_pending_normal_return [of rng s]
    deliver_message_shrinks [of _ s] deliver_all_pending_conserves [of rng s]
  show ?thesis by blast
qed

text \<open>Claim C10, the witness: two pending messages between the registered processes A
  and B are both delivered, in the order drawn.\<close>

theorem deliver_all_pending_drains_witness:
  "(let S = system_of [''A'', ''B''] [OpSendMessage ''A'' ''B'' ''x'', OpSendMessage ''B'' ''A'' ''y''];
        m1 = \<lparr>msg_id = ''A-1'', sender = ''A'', receiver = ''B'', msg_timestamp = 1, content = ''x''\<rparr>;
        m2 = \<lparr>msg_id = ''B-1'', sender = ''B'', receiver = ''A'', msg_timestamp = 1, content = ''y''\<rparr>
    in pending_messages S = [m1, m2]
       \<and> fst ` set (processes S) = {''A'', ''B''}
       \<and> fst (deliver_all_pending draw_first S) = Inr ()
       \<and> pending_messages (snd (deliver_all_pending draw_first S)) = []
       \<and> delivered_messages (snd (deliver_all_pending draw_first S)) = [m1, m2]
       \<and> Suc (length (pending_messages (snd (deliver_message S m1)))) = length (pending_messages S))"
  using
    deliver_all_pending_drains
      [of "system_of [''A'', ''B''] [OpSendMessage ''A'' ''B'' ''x'', OpSendMessage ''B'' ''A'' ''y'']"
          draw_first
          "\<lparr>msg_id = ''A-1'', sender = ''A'', receiver = ''B'', msg_timestamp = 1, content = ''x''\<rparr>"]
  by (simp add: run_eval deliver_all_pending.simps draw_first_def)

text \<open>
  Claim C10, the counterexample to the claim as stated: in the state reached by sending
  from A to the unregistered Z and then from A to A, drawing the first pending message
  raises \<^verbatim>\<open>KeyError\<close> out of the loop, and the second message remains pending.
\<close>

theorem deliver_all_pending_stops_at_unregistered_receiver:
  "(let S = system_of [''A''] [OpSendMessage ''A'' ''Z'' ''x'', OpSendMessage ''A'' ''A'' ''y'']
    in fst (deliver_all_pending draw_first S) = Inl (KeyError ''Z'')
       \<and> pending_messages (snd (deliver_all_pending draw_first S)) =
           [\<lparr>msg_id = ''A-2'', sender = ''A'', receiver = ''A'', msg_timestamp = 2, content = ''y''\<rparr>])"
  by (simp add: run_eval deliver_all_pending.simps draw_first_def)

section \<open>Causality\<close>

text \<open>In a reachable state the id of a message fixes its timestamp, so a SEND event
  carrying the id has the message's timestamp and a RECEIVE event carrying it has a later
  one.\<close>

lemma find_event_SomeD:
  "find_event mid ty es = Some e \<Longrightarrow> e \<in> set es \<and> message_id e = Some mid \<and> event_type e = ty"
  by (auto simp: find_event_def find_Some_iff)

lemma send_event_timestamp:
  assumes inv: "system_inv s"
    and c: "map_of (processes s) k = Some c"
    and e: "e \<in> set (events c)" "event_type e = SEND" "message_id e = Some (msg_id m)"
    and m: "m \<in> set (pending_messages s) \<union> set (delivered_messages s)"
  shows "timestamp e = msg_timestamp m"
proof -
  from system_inv_clock [OF inv c] e
  have "Some (msg_id m) = Some (message_id_of k (timestamp e))" and "0 < timestamp e"
    by (auto simp: clock_inv_def)
  moreover from system_inv_msg [OF inv m]
  have "msg_id m = message_id_of (sender m) (msg_timestamp m)" and "0 < msg_timestamp m"
    by (simp_all add: msg_inv_def)
  ultimately have "message_id_of k (timestamp e) = message_id_of (sender m) (msg_timestamp m)"
    and "0 \<le> timestamp e" and "0 \<le> msg_timestamp m"
    by simp_all
  then show ?thesis by (blast dest: message_id_of_inj)
qed

lemma receive_event_timestamp:
  assumes inv: "system_inv s"
    and c: "map_of (processes s) k = Some c"
    and e: "e \<in> set (events c)" "event_type e = RECEIVE" "message_id e = Some (msg_id m)"
    and m: "m \<in> set (pending_messages s) \<union> set (delivered_messages s)"
  shows "msg_timestamp m < timestamp e"
proof -
  from system_inv_recv [OF inv c e(1)] e(2,3)
  obtain m' where m': "m' \<in> set (delivered_messages s)" "msg_id m' = msg_id m"
    "msg_timestamp m' < timestamp e"
    by (auto simp: recv_inv_def)
  from m'(1) have "m' \<in> set (pending_messages s) \<union> set (delivered_messages s)" by simp
  from system_inv_msg [OF inv this] system_inv_msg [OF inv m] m'(2)
  have "message_id_of (sender m') (msg_timestamp m') = message_id_of (sender m) (msg_timestamp m)"
    and "0 \<le> msg_timestamp m'" and "0 \<le> msg_timestamp m"
    by (simp_all add: msg_inv_def)
  then have "msg_timestamp m' = msg_timestamp m" by (blast dest: message_id_of_inj)
  with m'(3) show ?thesis by simp
qed

lemma send_before_receive:
  assumes inv: "system_inv s"
    and c: "map_of (processes s) k = Some c"
    and e: "e \<in> set (events c)" "event_type e = SEND"
    and c': "map_of (processes s) k' = Some c'"
    and e': "e' \<in> set (events c')" "event_type e' = RECEIVE"
    and eq: "message_id e = message_id e'"
  shows "timestamp e < timestamp e'"
proof -
  from system_inv_recv [OF inv c' e'(1)] e'(2)
  obtain m where m: "m \<in> set (delivered_messages s)" "message_id e' = Some (msg_id m)"
    by (auto simp: recv_inv_def)
  from m(1) have mem: "m \<in> set (pending_messages s) \<union> set (delivered_messages s)" by simp
  from eq m(2) have "message_id e = Some (msg_id m)" by simp
  from send_event_timestamp [OF inv c e this mem]
    receive_event_timestamp [OF inv c' e' m(2) mem]
  show ?thesis by simp
qed

lemma verify_loop_char:
  assumes inv: "system_inv s"
  shows "set ms \<subseteq> set (delivered_messages s) \<Longrightarrow>
    verify_loop s ms vs =
      (case List.find (\<lambda>m. map_of (processes s) (receiver m) = None) ms of
         None \<Rightarrow> Inr vs
       | Some m \<Rightarrow> Inl (KeyError (receiver m)))"
proof (induction ms)
  case Nil
  show ?case by simp
next
  case (Cons m ms)
  from Cons.prems have mem: "m \<in> set (pending_messages s) \<union> set (delivered_messages s)"
    by simp
  from system_inv_msg [OF inv mem]
  obtain cs where cs: "map_of (processes s) (sender m) = Some cs"
    by (auto simp: msg_inv_def)
  show ?case
  proof (cases "map_of (processes s) (receiver m)")
    case None
    with cs show ?thesis by simp
  next
    case (Some cr)
    have no_violation: "\<not> timestamp re \<le> timestamp se"
      if "find_event (msg_id m) SEND (events cs) = Some se"
        and "find_event (msg_id m) RECEIVE (events cr) = Some re" for se re
    proof -
      from find_event_SomeD [OF that(1)] find_event_SomeD [OF that(2)]
      have "timestamp se = msg_timestamp m" and "msg_timestamp m < timestamp re"
        using send_event_timestamp [OF inv cs _ _ _ mem]
          receive_event_timestamp [OF inv Some _ _ _ mem]
        by blast+
      then show ?thesis by simp
    qed
    have "verify_loop s (m # ms) vs = verify_loop s ms vs"
      using cs Some no_violation
      by (auto split: option.splits)
    with Cons Some show ?thesis by simp
  qed
qed

lemma verify_causality_char:
  assumes "system_inv s"
  shows "verify_causality s =
      (case List.find (\<lambda>m. map_of (processes s) (receiver m) = None) (delivered_messages s) of
         None \<Rightarrow> Inr []
       | Some m \<Rightarrow> Inl (KeyError (receiver m)))"
  unfolding verify_causality_def
  by (rule verify_loop_char [OF assms]) simp

text \<open>
  Claim C9, as amended. In every state reached by a run of the public operations,
  \<^verbatim>\<open>verify_causality\<close> never returns a violation: if it returns a list, the list is
  empty. It returns (the empty list) whenever the receiver of every delivered message is a
  registered process. It can raise: the only exception is the \<^verbatim>\<open>KeyError\<close> for the
  receiver of a delivered message that is not a registered process.
\<close>

theorem verify_causality_no_violations:
  "(\<forall>vs. verify_causality (system_of pids ops) = Inr vs \<longrightarrow> vs = [])
   \<and> ((\<forall>m\<in>set (delivered_messages (system_of pids ops)).
          receiver m \<in> fst ` set (processes (system_of pids ops))) \<longrightarrow>
        verify_causality (system_of pids ops) = Inr [])
   \<and> (\<forall>e. verify_causality (system_of pids ops) = Inl e \<longrightarrow>
        (\<exists>m\<in>set (delivered_messages (system_of pids ops)).
           e = KeyError (receiver m)
           \<and> receiver m \<notin> fst ` set (processes (system_of pids ops))))"
proof -
  let ?s = "system_of pids ops"
  let ?f = "List.find (\<lambda>m. map_of (processes ?s) (receiver m) = None) (delivered_messages ?s)"
  have ch: "verify_causality ?s = (case ?f of None \<Rightarrow> Inr [] | Some m \<Rightarrow> Inl (KeyError (receiver m)))"
    by (rule verify_causality_char) (rule system_inv_system_of)
  have a: "\<forall>vs. verify_causality ?s = Inr vs \<longrightarrow> vs = []"
    unfolding ch by (auto split: option.splits)
  have b: "(\<forall>m\<in>set (delivered_messages ?s). receiver m \<in> fst ` set (processes ?s)) \<longrightarrow>
        verify_causality ?s = Inr []"
  proof
    assume "\<forall>m\<in>set (delivered_messages ?s). receiver m \<in> fst ` set (processes ?s)"
    then have "?f = None"
      by (auto simp: find_None_iff map_of_eq_None_iff)
    then show "verify_causality ?s = Inr []" by (simp add: ch)
  qed
  have c: "\<forall>e. verify_causality ?s = Inl e \<longrightarrow>
        (\<exists>m\<in>set (delivered_messages ?s). e = KeyError (receiver m)
           \<and> receiver m \<notin> fst ` set (processes ?s))"
  proof (intro allI impI)
    fix e assume "verify_causality ?s = Inl e"
    then obtain m where "?f = Some m" and e: "e = KeyError (receiver m)"
      unfolding ch by (auto split: option.splits)
    then have "m \<in> set (delivered_messages ?s)" and "map_of (processes ?s) (receiver m) = None"
      by (auto simp: find_Some_iff)
    with e show "\<exists>m\<in>set (delivered_messages ?s). e = KeyError (receiver m)
           \<and> receiver m \<notin> fst ` set (processes ?s)"
      by (auto simp: map_of_eq_None_iff)
  qed
  from a b c show ?thesis by blast
qed

text \<open>Claim C9, the witness: after A's message to the registered B is delivered the
  check returns the empty list; after the delivery of a message to the unregistered Z
  was attempted, it raises \<^verbatim>\<open>KeyError\<close> for Z.\<close>

theorem verify_causality_no_violations_witness:
  "(let S = system_of [''A'', ''B'']
              [OpSendMessage ''A'' ''B'' ''x'',
               OpDeliverMessage \<lparr>msg_id = ''A-1'', sender = ''A'', receiver = ''B'',
                                  msg_timestamp = 1, content = ''x''\<rparr>]
    in delivered_messages S =
         [\<lparr>msg_id = ''A-1'', sender = ''A'', receiver = ''B'', msg_timestamp = 1, content = ''x''\<rparr>]
       \<and> fst ` set (processes S) = {''A'', ''B''}
       \<and> verify_causality S = Inr [])
   \<and> (let S = system_of [''A'']
              [OpSendMessage ''A'' ''Z'' ''x'',
               OpDeliverMessage \<lparr>msg_id = ''A-1'', sender = ''A'', receiver = ''Z'',
                                  msg_timestamp = 1, content = ''x''\<rparr>]
       in verify_causality S = Inl (KeyError ''Z'')
          \<and> delivered_messages S =
              [\<lparr>msg_id = ''A-1'', sender = ''A'', receiver = ''Z'', msg_timestamp = 1, content = ''x''\<rparr>]
          \<and> fst ` set (processes S) = {''A''})"
  using
    verify_causality_no_violations
      [of "[''A'', ''B'']"
          "[OpSendMessage ''A'' ''B'' ''x'',
            OpDeliverMessage \<lparr>msg_id = ''A-1'', sender = ''A'', receiver = ''B'',
                               msg_timestamp = 1, content = ''x''\<rparr>]"]
    verify_causality_no_violations
      [of "[''A'']"
          "[OpSendMessage ''A'' ''Z'' ''x'',
            OpDeliverMessage \<lparr>msg_id = ''A-1'', sender = ''A'', receiver = ''Z'',
                               msg_timestamp = 1, content = ''x''\<rparr>]"]
  by (simp add: run_eval verify_causality_def find_event_def)

text \<open>
  Claim C9, the counterexample to the claim as stated: construct the system with the
  single process A, send from A to Z, attempt the delivery (which raises after moving the
  message to the delivered list); then \<^verbatim>\<open>verify_causality\<close> raises \<^verbatim>\<open>KeyError\<close>
  instead of returning a list.
\<close>

theorem verify_causality_raises_after_failed_delivery:
  "verify_causality
     (system_of [''A'']
        [OpSendMessage ''A'' ''Z'' ''x'',
         OpDeliverMessage \<lparr>msg_id = ''A-1'', sender = ''A'', receiver = ''Z'',
                            msg_timestamp = 1, content = ''x''\<rparr>])
   = Inl (KeyError ''Z'')"
  by (simp add: run_eval verify_causality_def find_event_def)

section \<open>The global history\<close>

lemma in_some_process:
  assumes inv: "system_inv s"
    and e: "e \<in> set (concat (map (\<lambda>p. events (snd p)) (processes s)))"
  shows "\<exists>k c. map_of (processes s) k = Some c \<and> e \<in> set (events c)"
proof -
  from e obtain p where p: "p \<in> set (processes s)" "e \<in> set (events (snd p))"
    by auto
  from inv have "distinct (map fst (processes s))" by (simp add: system_inv_def)
  with p(1) have "map_of (processes s) (fst p) = Some (snd p)" by simp
  with p(2) show ?thesis by blast
qed

lemma filter_process_events:
  assumes "distinct (map fst ps)"
    and "\<forall>p\<in>set ps. \<forall>e\<in>set (events (snd p)). process_id e = fst p"
    and "map_of ps k = Some c"
  shows "filter (\<lambda>e. process_id e = k) (concat (map (\<lambda>p. events (snd p)) ps)) = events c"
  using assms
proof (induction ps)
  case Nil
  then show ?case by simp
next
  case (Cons p ps)
  show ?case
  proof (cases "fst p = k")
    case True
    with Cons.prems have c: "snd p = c" by (cases p) simp
    from True Cons.prems have "k \<notin> fst ` set ps" by auto
    with Cons.prems(2)
    have "filter (\<lambda>e. process_id e = k) (concat (map (\<lambda>p. events (snd p)) ps)) = []"
      by (auto simp: filter_empty_conv)
    moreover from True Cons.prems(2) c
    have "filter (\<lambda>e. process_id e = k) (events c) = events c"
      by (auto simp: filter_id_conv)
    ultimately show ?thesis using c by simp
  next
    case False
    with Cons.prems have "map_of ps k = Some c" by (cases p) (simp split: if_splits)
    with Cons.IH Cons.prems
    have "filter (\<lambda>e. process_id e = k) (concat (map (\<lambda>p. events (snd p)) ps)) = events c"
      by simp
    moreover from False Cons.prems(2)
    have "filter (\<lambda>e. process_id e = k) (events (snd p)) = []"
      by (auto simp: filter_empty_conv)
    ultimately show ?thesis by simp
  qed
qed

lemma clock_inv_sorted_keys:
  assumes "clock_inv k c"
  shows "sorted (map event_key (events c))"
proof -
  from assms have "sorted_wrt (\<lambda>a b. timestamp a < timestamp b) (events c)"
    by (simp add: clock_inv_def sorted_wrt_map)
  then have "sorted_wrt (\<lambda>a b. event_key a \<le> event_key b) (events c)"
    by (rule sorted_wrt_mono_rel [rotated]) (simp add: event_key_def less_eq_prod_def)
  then show ?thesis by (simp add: sorted_map)
qed

lemma history_filter:
  assumes inv: "system_inv s" and c: "map_of (processes s) k = Some c"
  shows "filter (\<lambda>e. process_id e = k) (get_global_history s) = events c"
proof -
  have d: "distinct (map fst (processes s))" using inv by (simp add: system_inv_def)
  have pid: "\<forall>p\<in>set (processes s). \<forall>e\<in>set (events (snd p)). process_id e = fst p"
  proof (intro ballI)
    fix p e assume p: "p \<in> set (processes s)" and e: "e \<in> set (events (snd p))"
    from d p have "map_of (processes s) (fst p) = Some (snd p)" by simp
    from system_inv_clock [OF inv this] e show "process_id e = fst p"
      by (simp add: clock_inv_def)
  qed
  have "filter (\<lambda>e. process_id e = k) (get_global_history s) =
      sort_key event_key (filter (\<lambda>e. process_id e = k) (concat (map (\<lambda>p. events (snd p)) (processes s))))"
    by (simp add: get_global_history_def filter_sort)
  also have "\<dots> = sort_key event_key (events c)"
    by (simp only: filter_process_events [OF d pid c])
  also have "\<dots> = events c"
    by (rule sort_key_id_if_sorted) (rule clock_inv_sorted_keys [OF system_inv_clock [OF inv c]])
  finally show ?thesis .
qed

lemma history_send_before_receive:
  assumes inv: "system_inv s"
    and i: "i < length (get_global_history s)" and j: "j < length (get_global_history s)"
    and ty: "event_type (get_global_history s ! i) = SEND"
      "event_type (get_global_history s ! j) = RECEIVE"
    and eq: "message_id (get_global_history s ! i) = message_id (get_global_history s ! j)"
  shows "i < j"
proof (rule ccontr)
  let ?h = "get_global_history s"
  assume "\<not> i < j"
  then have ji: "j \<le> i" by simp
  let ?all = "concat (map (\<lambda>p. events (snd p)) (processes s))"
  have set_h: "set ?h = set ?all"
    by (simp add: get_global_history_def)
  from i j set_h have hi: "?h ! i \<in> set ?all" and hj: "?h ! j \<in> set ?all"
    by (metis nth_mem)+
  from in_some_process [OF inv hi] obtain k c where
    kc: "map_of (processes s) k = Some c" "?h ! i \<in> set (events c)" by blast
  from in_some_process [OF inv hj] obtain k' c' where
    kc': "map_of (processes s) k' = Some c'" "?h ! j \<in> set (events c')" by blast
  from send_before_receive [OF inv kc ty(1) kc' ty(2) eq]
  have lt: "timestamp (?h ! i) < timestamp (?h ! j)" .
  have "sorted (map event_key ?h)" by (simp add: get_global_history_def)
  from sorted_nth_mono [OF this ji] i j
  have "event_key (?h ! j) \<le> event_key (?h ! i)" by simp
  with lt show False by (simp add: event_key_def less_eq_prod_def)
qed

lemma happened_before_timestamp:
  assumes inv: "system_inv s" and hb: "happened_before s e1 e2"
  shows "timestamp e1 < timestamp e2"
  using hb
proof induction
  case (same_process k c i j)
  from system_inv_clock [OF inv same_process(1)]
  have "sorted_wrt (<) (map timestamp (events c))" by (simp add: clock_inv_def)
  from sorted_wrt_nth_less [OF this, of i j] same_process(2,3) show ?case by simp
next
  case (send_receive k c e k' c' e')
  then show ?case using send_before_receive [OF inv] by blast
next
  case (transitive e1 e2 e3)
  then show ?case by simp
qed

lemma history_position:
  assumes lt: "timestamp (get_global_history s ! i) < timestamp (get_global_history s ! j)"
    and i: "i < length (get_global_history s)" and j: "j < length (get_global_history s)"
  shows "i < j"
proof (rule ccontr)
  let ?h = "get_global_history s"
  assume "\<not> i < j"
  then have ji: "j \<le> i" by simp
  have "sorted (map event_key ?h)" by (simp add: get_global_history_def)
  from sorted_nth_mono [OF this ji] i j
  have "event_key (?h ! j) \<le> event_key (?h ! i)" by simp
  with lt show False by (simp add: event_key_def less_eq_prod_def)
qed

lemma history_happened_before:
  assumes inv: "system_inv s" and hb: "happened_before s e1 e2"
    and i: "i < length (get_global_history s)" "get_global_history s ! i = e1"
    and j: "j < length (get_global_history s)" "get_global_history s ! j = e2"
  shows "i < j"
  using happened_before_timestamp [OF inv hb] i j history_position [of s i j] by simp

lemma happened_before_in_history:
  assumes inv: "system_inv s" and hb: "happened_before s e1 e2"
  shows "e1 \<in> set (get_global_history s) \<and> e2 \<in> set (get_global_history s)"
  using hb
proof induction
  case (same_process k c i j)
  from same_process(1) have "(k, c) \<in> set (processes s)" by (rule map_of_SomeD)
  moreover from same_process(2,3) have "events c ! i \<in> set (events c)" "events c ! j \<in> set (events c)"
    by simp_all
  ultimately show ?case by (force simp: get_global_history_def)
next
  case (send_receive k c e k' c' e')
  from send_receive(1,4) have "(k, c) \<in> set (processes s)" "(k', c') \<in> set (processes s)"
    by (auto dest: map_of_SomeD)
  with send_receive(2,5) show ?case by (force simp: get_global_history_def)
next
  case (transitive e1 e2 e3)
  then show ?case by simp
qed

text \<open>
  Claim C8. In every state reached by a run of the public operations, the global history
  holds exactly the events of all process logs; it is sorted ascending by timestamp, ties
  broken by the lexicographic order of the process ids; a SEND event and a RECEIVE event
  with the same message id never stand with the RECEIVE first; the events of each process
  appear in the history in the order of that process's log; and altogether the history is
  a linear extension of happened-before: whenever one event happened before another, both
  are in the history and the first stands at the smaller index.
\<close>

theorem global_history_linear_extension:
  "mset (get_global_history (system_of pids ops)) =
     mset (concat (map (\<lambda>p. events (snd p)) (processes (system_of pids ops))))
   \<and> sorted_wrt (\<lambda>a b. timestamp a < timestamp b
                        \<or> (timestamp a = timestamp b \<and> process_id a \<le> process_id b))
        (get_global_history (system_of pids ops))
   \<and> (\<forall>i j. i < length (get_global_history (system_of pids ops))
           \<and> j < length (get_global_history (system_of pids ops))
           \<and> event_type (get_global_history (system_of pids ops) ! i) = SEND
           \<and> event_type (get_global_history (system_of pids ops) ! j) = RECEIVE
           \<and> message_id (get_global_history (system_of pids ops) ! i) =
               message_id (get_global_history (system_of pids ops) ! j)
           \<longrightarrow> i < j)
   \<and> (\<forall>k c. map_of (processes (system_of pids ops)) k = Some c \<longrightarrow>
          filter (\<lambda>e. process_id e = k) (get_global_history (system_of pids ops)) = events c)
   \<and> (\<forall>e1 e2. happened_before (system_of pids ops) e1 e2 \<longrightarrow>
          e1 \<in> set (get_global_history (system_of pids ops))
          \<and> e2 \<in> set (get_global_history (system_of pids ops))
          \<and> (\<forall>i j. i < length (get_global_history (system_of pids ops))
                 \<and> j < length (get_global_history (system_of pids ops))
                 \<and> get_global_history (system_of pids ops) ! i = e1
                 \<and> get_global_history (system_of pids ops) ! j = e2
                 \<longrightarrow> i < j))"
proof -
  let ?s = "system_of pids ops"
  let ?h = "get_global_history ?s"
  have inv: "system_inv ?s" by (rule system_inv_system_of)
  have a: "mset ?h = mset (concat (map (\<lambda>p. events (snd p)) (processes ?s)))"
    by (simp add: get_global_history_def)
  have "sorted (map event_key ?h)" by (simp add: get_global_history_def)
  then have "sorted_wrt (\<lambda>a b. event_key a \<le> event_key b) ?h"
    by (simp add: sorted_map)
  then have b: "sorted_wrt (\<lambda>a b. timestamp a < timestamp b
                        \<or> (timestamp a = timestamp b \<and> process_id a \<le> process_id b)) ?h"
    by (rule sorted_wrt_mono_rel [rotated]) (auto simp: event_key_def less_eq_prod_def)
  have c: "\<forall>i j. i < length ?h \<and> j < length ?h
           \<and> event_type (?h ! i) = SEND \<and> event_type (?h ! j) = RECEIVE
           \<and> message_id (?h ! i) = message_id (?h ! j) \<longrightarrow> i < j"
    using history_send_before_receive [OF inv] by blast
  have d: "\<forall>k c. map_of (processes ?s) k = Some c \<longrightarrow>
          filter (\<lambda>e. process_id e = k) ?h = events c"
    using history_filter [OF inv] by blast
  have e: "\<forall>e1 e2. happened_before ?s e1 e2 \<longrightarrow>
          e1 \<in> set ?h \<and> e2 \<in> set ?h
          \<and> (\<forall>i j. i < length ?h \<and> j < length ?h \<and> ?h ! i = e1 \<and> ?h ! j = e2 \<longrightarrow> i < j)"
    using happened_before_in_history [OF inv] history_happened_before [OF inv] by blast
  from a b c d e show ?thesis by blast
qed

text \<open>Claim C8, the witness: with the process table in the order B, A, a local event
  of B, a send from A to B and its delivery give the history A@1 (SEND), B@1, B@2
  (RECEIVE); the SEND stands at index 0 before its RECEIVE at index 2, the events of B
  are B's log, and both A@1 and B@1 happened before B@2.\<close>

theorem global_history_linear_extension_witness:
  "(let S = system_of [''B'', ''A'']
              [OpLocalEvent ''B'' ''w'', OpSendMessage ''A'' ''B'' ''x'',
               OpDeliverMessage \<lparr>msg_id = ''A-1'', sender = ''A'', receiver = ''B'',
                                  msg_timestamp = 1, content = ''x''\<rparr>];
        H = get_global_history S;
        C = \<lparr>clock_process_id = ''B'', time = 2,
              events = [\<lparr>process_id = ''B'', event_type = LOCAL, timestamp = 1,
                          description = ''w'', message_id = None\<rparr>,
                        \<lparr>process_id = ''B'', event_type = RECEIVE, timestamp = 2,
                          description = ''Receive from A: x'', message_id = Some ''A-1''\<rparr>]\<rparr>
    in map (\<lambda>e. (timestamp e, process_id e, event_type e)) H =
         [(1, ''A'', SEND), (1, ''B'', LOCAL), (2, ''B'', RECEIVE)]
       \<and> message_id (H ! 0) = message_id (H ! 2)
       \<and> (0::nat) < 2
       \<and> map_of (processes S) ''B'' = Some C
       \<and> filter (\<lambda>e. process_id e = ''B'') H = events C
       \<and> happened_before S (H ! 0) (H ! 2)
       \<and> happened_before S (H ! 1) (H ! 2))"
proof -
  let ?ops = "[OpLocalEvent ''B'' ''w'', OpSendMessage ''A'' ''B'' ''x'',
               OpDeliverMessage \<lparr>msg_id = ''A-1'', sender = ''A'', receiver = ''B'',
                                  msg_timestamp = 1, content = ''x''\<rparr>]"
  let ?S = "system_of [''B'', ''A''] ?ops"
  let ?H = "get_global_history ?S"
  let ?ea = "\<lparr>process_id = ''A'', event_type = SEND, timestamp = 1,
               description = ''Send to B: x'', message_id = Some ''A-1''\<rparr>"
  let ?eb1 = "\<lparr>process_id = ''B'', event_type = LOCAL, timestamp = 1,
               description = ''w'', message_id = None\<rparr>"
  let ?eb2 = "\<lparr>process_id = ''B'', event_type = RECEIVE, timestamp = 2,
               description = ''Receive from A: x'', message_id = Some ''A-1''\<rparr>"
  let ?CA = "\<lparr>clock_process_id = ''A'', time = 1, events = [?ea]\<rparr>"
  let ?CB = "\<lparr>clock_process_id = ''B'', time = 2, events = [?eb1, ?eb2]\<rparr>"
  have procs: "processes ?S = [(''B'', ?CB), (''A'', ?CA)]"
    by (simp add: run_eval)
  have H: "?H = [?ea, ?eb1, ?eb2]"
    by (simp add: get_global_history_def procs event_key_def)
  have hb1: "happened_before ?S ?ea ?eb2"
    by (rule happened_before.send_receive [where k = "''A''" and c = ?CA and k' = "''B''" and c' = ?CB])
       (simp_all add: procs)
  have "happened_before ?S (events ?CB ! 0) (events ?CB ! 1)"
    by (rule happened_before.same_process [where k = "''B''"]) (simp_all add: procs)
  then have hb2: "happened_before ?S ?eb1 ?eb2" by simp
  from global_history_linear_extension [of "[''B'', ''A'']" ?ops] hb1 hb2
  show ?thesis
    by (simp add: Let_def H procs)
qed

end
